theory Spec2Isabelle
  imports Main "HOL-Library.AList"
begin

section \<open>Read tracking: the article controller\<close>

text \<open>
  Times are JavaScript timestamps: integer milliseconds since the Unix epoch, as returned by
  \<^verbatim>\<open>Date.now()\<close> and held by a \<^verbatim>\<open>Date\<close>. Identifiers are strings.

  The module-level \<^verbatim>\<open>readRateLimit = new Map<string, number>()\<close> is an association list in
  insertion order: \<^verbatim>\<open>Map.get\<close> is \<open>map_of\<close>, \<^verbatim>\<open>Map.set\<close> is \<open>AList.update\<close> (an
  existing key keeps its position, a new key goes to the end) and \<^verbatim>\<open>Map.size\<close> is \<open>length\<close>.
  The ReadLog table is the list of rows created so far.
\<close>

datatype error = DbError

record Article =
  deletedAt :: "int option"

record ReadLog =
  articleId :: string
  readerId :: "string option"
  readAt :: int

text \<open>
  The part of an Express request that \<^verbatim>\<open>getById\<close> can see: \<^verbatim>\<open>req.params.id\<close>, the
  \<^verbatim>\<open>req.user?.userId\<close> left by \<^verbatim>\<open>optionalAuth\<close> (absent for a guest), and the address of the
  caller, which the handler never reads.
\<close>

record Request =
  paramsId :: string
  user :: "string option"
  remoteAddr :: string

text \<open>
  What the world answers during one call: the clock, the result of
  \<^verbatim>\<open>prisma.article.findFirst\<close> (a rejection, \<^verbatim>\<open>null\<close> or the article) and whether the
  detached \<^verbatim>\<open>prisma.readLog.create\<close> is rejected.
\<close>

record Env =
  dateNow :: int
  findFirst :: "error + Article option"
  createFails :: bool

record State =
  readRateLimit :: "(string \<times> int) list"
  readLogs :: "ReadLog list"

definition READ_RATE_LIMIT_MS :: int where
  "READ_RATE_LIMIT_MS = 10000"

text \<open>\<^verbatim>\<open>req.user?.userId || 'guest'\<close>: an absent user and the empty string are both falsy.\<close>

definition userIdOrGuest :: "string option \<Rightarrow> string" where
  "userIdOrGuest u = (case u of None \<Rightarrow> ''guest'' | Some i \<Rightarrow> if i = [] then ''guest'' else i)"

text \<open>The template string \<^verbatim>\<open>`${userId}-${articleId}`\<close>.\<close>

definition rateLimitKey :: "string \<Rightarrow> string \<Rightarrow> string" where
  "rateLimitKey userId aid = userId @ ''-'' @ aid"

text \<open>
  The gate \<^verbatim>\<open>!lastRead || now - lastRead > READ_RATE_LIMIT_MS\<close>. \<^verbatim>\<open>!lastRead\<close> holds for
  \<^verbatim>\<open>undefined\<close> (no entry) and for the number 0.
\<close>

definition admits :: "int option \<Rightarrow> int \<Rightarrow> bool" where
  "admits lastRead now =
     (case lastRead of
        None \<Rightarrow> True
      | Some t \<Rightarrow> t = 0 \<or> now - t > READ_RATE_LIMIT_MS)"

text \<open>
  \<^verbatim>\<open>ArticleService.createReadLog\<close>: \<^verbatim>\<open>readerId || null\<close>, fire and forget; a rejection is
  logged and swallowed. The row's \<^verbatim>\<open>readAt\<close> is not passed by the code: the database fills
  it with its clock, modelled by the clock reading of the call.
\<close>

definition readerIdOrNull :: "string option \<Rightarrow> string option" where
  "readerIdOrNull rid = (case rid of None \<Rightarrow> None | Some i \<Rightarrow> if i = [] then None else Some i)"

definition createReadLog :: "Env \<Rightarrow> string \<Rightarrow> string option \<Rightarrow> ReadLog list \<Rightarrow> ReadLog list" where
  "createReadLog env aid rid logs =
     (if createFails env then logs
      else logs @ [\<lparr>articleId = aid, readerId = readerIdOrNull rid, readAt = dateNow env\<rparr>])"

text \<open>Lines 132 to 142 of the controller: the rate-limited creation of the read log.\<close>

definition trackRead :: "Env \<Rightarrow> Request \<Rightarrow> State \<Rightarrow> State" where
  "trackRead env req s =
     (let userId = userIdOrGuest (user req);
          key = rateLimitKey userId (paramsId req);
          lastRead = map_of (readRateLimit s) key;
          now = dateNow env
      in if admits lastRead now
         then \<lparr>readRateLimit = AList.update key now (readRateLimit s),
               readLogs = createReadLog env (paramsId req) (user req) (readLogs s)\<rparr>
         else s)"

text \<open>
  Lines 144 to 152: once the map holds more than 10000 entries, every entry whose timestamp is
  below \<^verbatim>\<open>now - READ_RATE_LIMIT_MS\<close> is deleted.
\<close>

definition cleanup :: "int \<Rightarrow> State \<Rightarrow> State" where
  "cleanup now s =
     (if length (readRateLimit s) > 10000
      then (let cutoff = now - READ_RATE_LIMIT_MS
            in s\<lparr>readRateLimit := filter (\<lambda>(key, timestamp). \<not> timestamp < cutoff) (readRateLimit s)\<rparr>)
      else s)"

text \<open>
  \<^verbatim>\<open>ArticleController.getById\<close>: the HTTP status sent and the state left behind. A rejected
  lookup is caught and answered with 500.
\<close>

definition getById :: "Env \<Rightarrow> Request \<Rightarrow> State \<Rightarrow> nat \<times> State" where
  "getById env req s =
     (case findFirst env of
        Inl e \<Rightarrow> (500, s)
      | Inr None \<Rightarrow> (404, s)
      | Inr (Some article) \<Rightarrow>
          if deletedAt article \<noteq> None then (410, s)
          else (200, cleanup (dateNow env) (trackRead env req s)))"

text \<open>
  A process starts with an empty rate-limit map and serves calls one after the other; the
  ReadLog rows of the state are the rows this process has created. A call is what the world
  answers during it and the request.
\<close>

type_synonym Call = "Env \<times> Request"

definition processStart :: State where
  "processStart = \<lparr>readRateLimit = [], readLogs = []\<rparr>"

definition serve :: "Call list \<Rightarrow> State \<Rightarrow> State" where
  "serve calls s = fold (\<lambda>(env, req) s. snd (getById env req s)) calls s"

text \<open>
  The actor of a ReadLog row, \<^verbatim>\<open>guest\<close> for a row without reader, and the key string of
  its actor and article.
\<close>

definition rowActor :: "ReadLog \<Rightarrow> string" where
  "rowActor r = (case readerId r of None \<Rightarrow> ''guest'' | Some i \<Rightarrow> i)"

definition rowKey :: "ReadLog \<Rightarrow> string" where
  "rowKey r = rateLimitKey (rowActor r) (articleId r)"

text \<open>
  A sequence of calls on a clock that never runs backwards and starts at or after \<open>t\<close>,
  none of whose row creations is rejected; and the clock reading of its last call.
\<close>

fun orderly :: "int \<Rightarrow> Call list \<Rightarrow> bool" where
  "orderly t [] = True"
| "orderly t ((env, req) # calls) =
     (t \<le> dateNow env \<and> \<not> createFails env \<and> orderly (dateNow env) calls)"

fun lastClock :: "int \<Rightarrow> Call list \<Rightarrow> int" where
  "lastClock t [] = t"
| "lastClock t ((env, req) # calls) = lastClock (dateNow env) calls"

text \<open>
  How the rate-limit map and the rows created so far hang together at clock reading \<open>T\<close>:
  the keys of the map are unique, an entry holds the time of the latest row of its key, and
  a key with rows but no entry had its entry evicted, all its rows being more than 10000 ms
  old.
\<close>

definition inSync :: "int \<Rightarrow> State \<Rightarrow> bool" where
  "inSync T s \<longleftrightarrow>
     distinct (map fst (readRateLimit s)) \<and>
     (\<forall>r\<in>set (readLogs s). 0 < readAt r \<and> readAt r \<le> T) \<and>
     (\<forall>k t. map_of (readRateLimit s) k = Some t \<longrightarrow>
        (\<exists>r\<in>set (readLogs s). rowKey r = k \<and> readAt r = t) \<and>
        (\<forall>r\<in>set (readLogs s). rowKey r = k \<longrightarrow> readAt r \<le> t)) \<and>
     (\<forall>r\<in>set (readLogs s). map_of (readRateLimit s) (rowKey r) = None \<longrightarrow> readAt r + 10000 < T)"

section \<open>Aggregation of read logs into daily analytics\<close>

text \<open>
  A \<^verbatim>\<open>Date\<close> is its millisecond timestamp. A valid \<^verbatim>\<open>Date\<close> holds at most
  8640000000000000; the dates met here are those on or after the epoch, \<open>onClock\<close>.
\<close>

definition onClock :: "int \<Rightarrow> bool" where
  "onClock t \<longleftrightarrow> 0 \<le> t \<and> t \<le> 8640000000000000"

text \<open>
  For a date \<open>d\<close> on the clock the expression
  \<^verbatim>\<open>new Date(Date.UTC(d.getUTCFullYear(), d.getUTCMonth(), d.getUTCDate()))\<close> is the start of
  the UTC day that contains \<open>d\<close>: the timestamp rounded down to a multiple of 86400000.
  (Before the year 100 it is not: \<^verbatim>\<open>Date.UTC\<close> maps the years 0 to 99 to 1900 to 1999. The
  properties below are stated for dates on the clock only.) Its ISO string is the key of the
  inner record and \<^verbatim>\<open>new Date(dateStr)\<close> reads the same instant back, so the key is modelled
  by the timestamp itself.
\<close>

definition MS_PER_DAY :: int where
  "MS_PER_DAY = 86400000"

definition utcMidnight :: "int \<Rightarrow> int" where
  "utcMidnight t = (t div MS_PER_DAY) * MS_PER_DAY"

text \<open>
  Days from 1970-01-01 to a date of the proleptic Gregorian calendar (month 1 to 12), and the
  timestamp of the ISO instant \<^verbatim>\<open>y-m-dTh:mi:sZ\<close>. They are used to name instants only.
\<close>

definition daysFromCivil :: "int \<Rightarrow> int \<Rightarrow> int \<Rightarrow> int" where
  "daysFromCivil y m d =
     (let y1 = (if m \<le> 2 then y - 1 else y);
          era = y1 div 400;
          yoe = y1 - era * 400;
          doy = (153 * (if m > 2 then m - 3 else m + 9) + 2) div 5 + d - 1;
          doe = yoe * 365 + yoe div 4 - yoe div 100 + doy
      in era * 146097 + doe - 719468)"

definition isoInstant :: "int \<Rightarrow> int \<Rightarrow> int \<Rightarrow> int \<Rightarrow> int \<Rightarrow> int \<Rightarrow> int" where
  "isoInstant y m d h mi sec = daysFromCivil y m d * MS_PER_DAY + ((h * 60 + mi) * 60 + sec) * 1000"

text \<open>
  The DailyAnalytics table, unique on \<^verbatim>\<open>(articleId, date)\<close>, maps that pair to its
  \<^verbatim>\<open>viewCount\<close>. The faults of the database are inputs: whether reading the ReadLog table is
  rejected, and for which keys an upsert is rejected.
\<close>

type_synonym DailyAnalytics = "string \<times> int \<rightharpoonup> nat"

record DbFaults =
  readFails :: bool
  upsertFails :: "string \<times> int \<Rightarrow> bool"

definition healthy :: DbFaults where
  "healthy = \<lparr>readFails = False, upsertFails = (\<lambda>k. False)\<rparr>"

text \<open>A database that rejects the upsert of one key and nothing else; the empty table.\<close>

definition rejecting :: "string \<times> int \<Rightarrow> DbFaults" where
  "rejecting k = \<lparr>readFails = False, upsertFails = (\<lambda>k'. k' = k)\<rparr>"

definition noAnalytics :: DailyAnalytics where
  "noAnalytics = Map.empty"

text \<open>
  \<^verbatim>\<open>prisma.dailyAnalytics.upsert\<close> with \<^verbatim>\<open>update: {viewCount}\<close> and
  \<^verbatim>\<open>create: {articleId, date, viewCount}\<close>.
\<close>

definition upsert :: "DbFaults \<Rightarrow> string \<times> int \<Rightarrow> nat \<Rightarrow> DailyAnalytics \<Rightarrow> error + DailyAnalytics" where
  "upsert db k viewCount table =
     (if upsertFails db k then Inl DbError
      else (case table k of
              None \<Rightarrow> Inr (table(k \<mapsto> viewCount))
            | Some old \<Rightarrow> Inr (table(k \<mapsto> viewCount))))"

text \<open>
  \<^verbatim>\<open>grouped: Record<string, Record<string, number>>\<close> is a plain object. For a key that
  is not the name of a property of \<^verbatim>\<open>Object.prototype\<close>, reading it gives \<^verbatim>\<open>undefined\<close>
  until it is set; and \<^verbatim>\<open>Object.entries\<close> lists the keys that are not array indices in the
  order of their insertion. Such keys are \<open>plainKey\<close>: not one of the twelve inherited names
  and not a string of decimal digits. (An inherited name reads as the inherited value and
  never becomes a key of \<^verbatim>\<open>grouped\<close>; array indices are listed first, in ascending
  order.) The date keys are ISO strings, which are plain.
\<close>

definition inheritedNames :: "string list" where
  "inheritedNames =
     [''constructor'', ''__proto__'', ''hasOwnProperty'', ''isPrototypeOf'',
      ''propertyIsEnumerable'', ''toString'', ''toLocaleString'', ''valueOf'',
      ''__defineGetter__'', ''__defineSetter__'', ''__lookupGetter__'', ''__lookupSetter__'']"

definition isDigit :: "char \<Rightarrow> bool" where
  "isDigit c \<longleftrightarrow> c \<in> set ''0123456789''"

definition plainKey :: "string \<Rightarrow> bool" where
  "plainKey k \<longleftrightarrow> k \<notin> set inheritedNames \<and> \<not> (k \<noteq> [] \<and> list_all isDigit k)"

text \<open>A read log whose article id is a plain key and whose \<^verbatim>\<open>readAt\<close> is on the clock.\<close>

definition plainLog :: "ReadLog \<Rightarrow> bool" where
  "plainLog l \<longleftrightarrow> plainKey (articleId l) \<and> onClock (readAt l)"

text \<open>
  On plain logs \<^verbatim>\<open>grouped\<close> is a nested association list in insertion order. One turn of
  the grouping loop, lines 29 to 40 of \<^verbatim>\<open>runAggregationNow\<close>:
\<close>

definition addLog :: "ReadLog \<Rightarrow> (string \<times> (int \<times> nat) list) list \<Rightarrow> (string \<times> (int \<times> nat) list) list" where
  "addLog log grouped =
     (let dateKey = utcMidnight (readAt log);
          grouped1 = (if map_of grouped (articleId log) = None
                      then AList.update (articleId log) [] grouped else grouped);
          dates = (case map_of grouped1 (articleId log) of None \<Rightarrow> [] | Some ds \<Rightarrow> ds);
          seen = (case map_of dates dateKey of None \<Rightarrow> 0 | Some c \<Rightarrow> c)
      in AList.update (articleId log) (AList.update dateKey (seen + 1) dates) grouped1)"

definition groupLogs :: "ReadLog list \<Rightarrow> (string \<times> (int \<times> nat) list) list" where
  "groupLogs logs = fold addLog logs []"

text \<open>
  The two nested upsert loops, lines 43 to 65. The state is the table and \<^verbatim>\<open>upsertCount\<close>;
  a rejected upsert leaves both loops with the table as it is at that moment.
\<close>

fun upsertDates :: "DbFaults \<Rightarrow> string \<Rightarrow> (int \<times> nat) list \<Rightarrow> DailyAnalytics \<times> nat
                      \<Rightarrow> error option \<times> DailyAnalytics \<times> nat" where
  "upsertDates db a [] (table, n) = (None, table, n)"
| "upsertDates db a ((dateKey, viewCount) # rest) (table, n) =
     (case upsert db (a, dateKey) viewCount table of
        Inl e \<Rightarrow> (Some e, table, n)
      | Inr table' \<Rightarrow> upsertDates db a rest (table', n + 1))"

fun upsertGrouped :: "DbFaults \<Rightarrow> (string \<times> (int \<times> nat) list) list \<Rightarrow> DailyAnalytics \<times> nat
                        \<Rightarrow> error option \<times> DailyAnalytics \<times> nat" where
  "upsertGrouped db [] (table, n) = (None, table, n)"
| "upsertGrouped db ((a, dates) # rest) (table, n) =
     (case upsertDates db a dates (table, n) of
        (Some e, table', n') \<Rightarrow> (Some e, table', n')
      | (None, table', n') \<Rightarrow> upsertGrouped db rest (table', n'))"

text \<open>
  \<^verbatim>\<open>runAggregationNow\<close> returns nothing; what it tells is the line it logs last: no read
  logs, completion with the number of upserts and of read logs, or the failure caught by its
  single \<^verbatim>\<open>try\<close> block.
\<close>

datatype RunLog = NoReadLogs | AggregationComplete nat nat | AggregationFailed

definition runAggregationNow :: "DbFaults \<Rightarrow> ReadLog list \<Rightarrow> DailyAnalytics \<Rightarrow> RunLog \<times> DailyAnalytics" where
  "runAggregationNow db allReadLogs table =
     (if readFails db then (AggregationFailed, table)
      else if length allReadLogs = 0 then (NoReadLogs, table)
      else (case upsertGrouped db (groupLogs allReadLogs) (table, 0) of
              (Some e, table', upsertCount) \<Rightarrow> (AggregationFailed, table')
            | (None, table', upsertCount) \<Rightarrow>
                (AggregationComplete upsertCount (length allReadLogs), table')))"

text \<open>
  \<^verbatim>\<open>processAggregation\<close>, the handler of the daily job. \<^verbatim>\<open>yesterday\<close> and \<^verbatim>\<open>today\<close> are
  \<^verbatim>\<open>Date.UTC\<close> of the date fields of \<open>now\<close>, with the day of the month lowered by one for
  \<^verbatim>\<open>yesterday\<close>. \<^verbatim>\<open>prisma.readLog.groupBy\<close> by article with \<^verbatim>\<open>_count\<close> gives one row for
  every article that has a read log in the range.
\<close>

definition groupByArticle :: "ReadLog list \<Rightarrow> (string \<times> nat) list" where
  "groupByArticle logs =
     map (\<lambda>a. (a, length (filter (\<lambda>l. articleId l = a) logs))) (remdups (map articleId logs))"

fun upsertEntries :: "DbFaults \<Rightarrow> int \<Rightarrow> (string \<times> nat) list \<Rightarrow> DailyAnalytics
                        \<Rightarrow> error option \<times> DailyAnalytics" where
  "upsertEntries db day [] table = (None, table)"
| "upsertEntries db day ((a, count) # rest) table =
     (case upsert db (a, day) count table of
        Inl e \<Rightarrow> (Some e, table)
      | Inr table' \<Rightarrow> upsertEntries db day rest table')"

definition processAggregation :: "DbFaults \<Rightarrow> int \<Rightarrow> ReadLog list \<Rightarrow> DailyAnalytics
                                    \<Rightarrow> error option \<times> DailyAnalytics" where
  "processAggregation db now logs table =
     (let yesterday = utcMidnight now - MS_PER_DAY;
          today = utcMidnight now
      in if readFails db then (Some DbError, table)
         else (let aggregatedReads =
                     groupByArticle (filter (\<lambda>l. yesterday \<le> readAt l \<and> readAt l < today) logs)
               in upsertEntries db yesterday aggregatedReads table))"

section \<open>Startup and scheduling: the server\<close>

text \<open>
  \<^verbatim>\<open>checkRedis\<close> opens a socket and arms a timer of \<^verbatim>\<open>timeoutMs\<close>. The promise settles with
  the first of: the socket connects (true), the socket fails (false), the timer fires
  (false). The input is what the socket does and when, in milliseconds after the call; a
  socket event at or after the time-out finds the promise already settled by the timer.
\<close>

datatype SocketEvent = Connects nat | Errors nat | Silent

definition checkRedis :: "nat \<Rightarrow> SocketEvent \<Rightarrow> bool" where
  "checkRedis timeoutMs ev =
     (case ev of
        Connects t \<Rightarrow> t < timeoutMs
      | Errors t \<Rightarrow> False
      | Silent \<Rightarrow> False)"

text \<open>
  The code keeps no mode variable: the mode of a process is what \<^verbatim>\<open>startServer\<close> registered,
  the BullMQ worker with its repeatable job, or the interval timer. \<open>running\<close> counts the
  calls of \<^verbatim>\<open>runAggregationNow\<close> that have started and not yet settled.
\<close>

datatype SchedulerMode = QueueBacked | InProcessFallback

record Server =
  worker :: bool
  dailyJob :: bool
  intervalTimer :: bool
  running :: nat
  runsStarted :: nat
  jobsHandled :: nat

text \<open>
  \<^verbatim>\<open>startServer\<close>, lines 56 to 80. With Redis reachable the worker is created and the job
  scheduled; if that throws, the process exits (no server). Otherwise the fallback runs
  \<^verbatim>\<open>runAggregationNow\<close> once, awaits it, and only then registers the interval.
\<close>

definition startServer :: "SocketEvent \<Rightarrow> bool \<Rightarrow> Server option" where
  "startServer probe scheduleFails =
     (let redisAvailable = checkRedis 2000 probe
      in if redisAvailable
         then (if scheduleFails then None
               else Some \<lparr>worker = True, dailyJob = True, intervalTimer = False,
                          running = 0, runsStarted = 0, jobsHandled = 0\<rparr>)
         else Some \<lparr>worker = False, dailyJob = False, intervalTimer = True,
                    running = 0, runsStarted = 1, jobsHandled = 0\<rparr>)"

definition modeOf :: "Server \<Rightarrow> SchedulerMode" where
  "modeOf s = (if worker s then QueueBacked else InProcessFallback)"

text \<open>
  What can happen to a started process: the interval fires, a run of \<^verbatim>\<open>runAggregationNow\<close>
  settles, the broker hands the worker a job, Redis becomes reachable or unreachable. The
  interval callback is \<^verbatim>\<open>async () => { await runAggregationNow(); }\<close>: it starts a run
  whatever is already running. No code listens for Redis coming or going.
\<close>

datatype Event = TimerTick | RunSettled | JobFired | RedisUp | RedisDown

fun step :: "Server \<Rightarrow> Event \<Rightarrow> Server" where
  "step s TimerTick =
     (if intervalTimer s then s\<lparr>running := running s + 1, runsStarted := runsStarted s + 1\<rparr> else s)"
| "step s RunSettled = (if running s > 0 then s\<lparr>running := running s - 1\<rparr> else s)"
| "step s JobFired = (if worker s then s\<lparr>jobsHandled := jobsHandled s + 1\<rparr> else s)"
| "step s RedisUp = s"
| "step s RedisDown = s"

definition exec :: "Event list \<Rightarrow> Server \<Rightarrow> Server" where
  "exec evs s = foldl step s evs"

text \<open>Every timer tick of the trace finds no run executing.\<close>

fun ticksWhenIdle :: "Server \<Rightarrow> Event list \<Rightarrow> bool" where
  "ticksWhenIdle s [] = True"
| "ticksWhenIdle s (e # es) = ((e \<noteq> TimerTick \<or> running s = 0) \<and> ticksWhenIdle (step s e) es)"

text \<open>
  A rate-limit map with \<open>n\<close> entries: the readers \<^verbatim>\<open>u\<close>, \<^verbatim>\<open>uu\<close>, \<^verbatim>\<open>uuu\<close> and so on, each
  having read the article \<open>aid\<close> at time \<open>t\<close>.
\<close>

definition manyReaders :: "string \<Rightarrow> int \<Rightarrow> nat \<Rightarrow> (string \<times> int) list" where
  "manyReaders aid t n = map (\<lambda>i. (rateLimitKey (replicate (Suc i) CHR ''u'') aid, t)) [0..<n]"


section \<open>Notions used to state the properties of aggregation\<close>

text \<open>
  The number of read logs of an article whose \<^verbatim>\<open>readAt\<close> falls on the UTC day that starts
  at \<open>day\<close>.
\<close>

definition viewsOn :: "ReadLog list \<Rightarrow> string \<Rightarrow> int \<Rightarrow> nat" where
  "viewsOn logs a day =
     length (filter (\<lambda>l. articleId l = a \<and> utcMidnight (readAt l) = day) logs)"

text \<open>
  The groups in the order in which the nested loops of \<^verbatim>\<open>runAggregationNow\<close> visit them, and
  the two loops written as one loop over that sequence.
\<close>

definition entries :: "(string \<times> (int \<times> nat) list) list \<Rightarrow> ((string \<times> int) \<times> nat) list" where
  "entries grouped =
     concat (map (\<lambda>(a, dates). map (\<lambda>(dateKey, viewCount). ((a, dateKey), viewCount)) dates) grouped)"

fun upsertAll :: "DbFaults \<Rightarrow> ((string \<times> int) \<times> nat) list \<Rightarrow> DailyAnalytics \<times> nat
                    \<Rightarrow> error option \<times> DailyAnalytics \<times> nat" where
  "upsertAll db [] (table, n) = (None, table, n)"
| "upsertAll db ((k, viewCount) # rest) (table, n) =
     (case upsert db k viewCount table of
        Inl e \<Rightarrow> (Some e, table, n)
      | Inr table' \<Rightarrow> upsertAll db rest (table', n + 1))"

text \<open>The table after a sequence of upserts that were all accepted.\<close>

definition applied :: "((string \<times> int) \<times> nat) list \<Rightarrow> DailyAnalytics \<Rightarrow> DailyAnalytics" where
  "applied es table = fold (\<lambda>(k, viewCount) t. t(k \<mapsto> viewCount)) es table"

text \<open>The count that \<^verbatim>\<open>grouped[a][dateKey]\<close> holds, if any, and the shape of \<^verbatim>\<open>grouped\<close>.\<close>

definition look :: "(string \<times> (int \<times> nat) list) list \<Rightarrow> string \<Rightarrow> int \<Rightarrow> nat option" where
  "look grouped a dateKey = (case map_of grouped a of None \<Rightarrow> None | Some dates \<Rightarrow> map_of dates dateKey)"

definition uniqueKeys :: "(string \<times> (int \<times> nat) list) list \<Rightarrow> bool" where
  "uniqueKeys grouped \<longleftrightarrow>
     distinct (map fst grouped) \<and> list_all (\<lambda>(a, dates). distinct (map fst dates)) grouped"

text \<open>
  The incremental aggregation repeated for every UTC day that has a read log: the daily job
  run once on the day after each such day, here at its midnight.
\<close>

definition daysOf :: "ReadLog list \<Rightarrow> int list" where
  "daysOf logs = remdups (map (\<lambda>l. utcMidnight (readAt l)) logs)"

definition aggregateEachDay :: "ReadLog list \<Rightarrow> DailyAnalytics \<Rightarrow> DailyAnalytics" where
  "aggregateEachDay logs table =
     fold (\<lambda>day t. snd (processAggregation healthy (day + MS_PER_DAY) logs t)) (daysOf logs) table"

section \<open>Properties of read tracking\<close>

lemma map_of_filter_value:
  "distinct (map fst xs) \<Longrightarrow>
   map_of (filter (\<lambda>(k, t). P t) xs) k =
     (case map_of xs k of None \<Rightarrow> None | Some t \<Rightarrow> if P t then Some t else None)"
proof (induction xs)
  case Nil
  then show ?case by simp
next
  case (Cons x xs)
  obtain k0 t0 where x: "x = (k0, t0)" by (cases x)
  from Cons.prems have notin: "k0 \<notin> fst ` set xs" and d: "distinct (map fst xs)"
    by (auto simp: x)
  have none: "map_of (filter (\<lambda>(k, t). P t) xs) k0 = None"
    using notin by (auto simp: map_of_eq_None_iff)
  show ?case
    using Cons.IH [OF d] none by (auto simp: x)
qed

lemma set_update_subset: "set (AList.update k v al) \<subseteq> insert (k, v) (set al)"
  by (induction al) auto

lemma length_update_ge: "length al \<le> length (AList.update k v al)"
  by (induction al) auto

lemma trackRead_length: "length (readRateLimit s) \<le> length (readRateLimit (trackRead env req s))"
  by (simp add: trackRead_def Let_def length_update_ge)

lemma trackRead_distinct:
  "distinct (map fst (readRateLimit s)) \<Longrightarrow> distinct (map fst (readRateLimit (trackRead env req s)))"
  by (simp add: trackRead_def Let_def AList.distinct_update)

lemma getById_found:
  "findFirst env = Inr (Some art) \<Longrightarrow> deletedAt art = None \<Longrightarrow>
   getById env req s = (200, cleanup (dateNow env) (trackRead env req s))"
  by (simp add: getById_def)

lemma cleanup_readLogs: "readLogs (cleanup now s) = readLogs s"
  by (simp add: cleanup_def Let_def)

lemma cleanup_keeps:
  "map_of (readRateLimit s) k = Some t \<Longrightarrow> now - t \<le> READ_RATE_LIMIT_MS \<Longrightarrow>
   map_of (readRateLimit (cleanup now s)) k = Some t"
  using map_of_filter_in [where P = "\<lambda>k t. \<not> t < now - READ_RATE_LIMIT_MS" and xs = "readRateLimit s" and k = k and z = t]
  by (simp add: cleanup_def Let_def)

lemma getById_admitted:
  assumes "findFirst env = Inr (Some art)" "deletedAt art = None"
    and "admits (map_of (readRateLimit s) (rateLimitKey (userIdOrGuest (user req)) (paramsId req))) (dateNow env)"
  shows "readLogs (snd (getById env req s)) = createReadLog env (paramsId req) (user req) (readLogs s)"
    and "map_of (readRateLimit (snd (getById env req s))) (rateLimitKey (userIdOrGuest (user req)) (paramsId req))
           = Some (dateNow env)"
proof -
  let ?key = "rateLimitKey (userIdOrGuest (user req)) (paramsId req)"
  have t: "trackRead env req s =
      \<lparr>readRateLimit = AList.update ?key (dateNow env) (readRateLimit s),
       readLogs = createReadLog env (paramsId req) (user req) (readLogs s)\<rparr>"
    using assms(3) by (simp add: trackRead_def Let_def)
  show "readLogs (snd (getById env req s)) = createReadLog env (paramsId req) (user req) (readLogs s)"
    by (simp add: getById_found [OF assms(1,2)] cleanup_readLogs t)
  have "map_of (readRateLimit (trackRead env req s)) ?key = Some (dateNow env)"
    by (simp add: t AList.update_conv')
  then show "map_of (readRateLimit (snd (getById env req s))) ?key = Some (dateNow env)"
    by (simp add: getById_found [OF assms(1,2)] cleanup_keeps READ_RATE_LIMIT_MS_def)
qed

lemma getById_dropped:
  assumes "findFirst env = Inr (Some art)" "deletedAt art = None"
    and "\<not> admits (map_of (readRateLimit s) (rateLimitKey (userIdOrGuest (user req)) (paramsId req))) (dateNow env)"
  shows "readLogs (snd (getById env req s)) = readLogs s"
    and "map_of (readRateLimit (snd (getById env req s))) (rateLimitKey (userIdOrGuest (user req)) (paramsId req))
           = map_of (readRateLimit s) (rateLimitKey (userIdOrGuest (user req)) (paramsId req))"
proof -
  let ?key = "rateLimitKey (userIdOrGuest (user req)) (paramsId req)"
  have t: "trackRead env req s = s"
    using assms(3) by (simp add: trackRead_def Let_def)
  show "readLogs (snd (getById env req s)) = readLogs s"
    by (simp add: getById_found [OF assms(1,2)] cleanup_readLogs t)
  from assms(3) obtain t0 where l: "map_of (readRateLimit s) ?key = Some t0"
    and w: "dateNow env - t0 \<le> READ_RATE_LIMIT_MS"
    by (auto simp: admits_def split: option.splits)
  show "map_of (readRateLimit (snd (getById env req s))) ?key = map_of (readRateLimit s) ?key"
    by (simp add: getById_found [OF assms(1,2)] t l cleanup_keeps [OF l w])
qed


lemma second_read:
  assumes ok1: "findFirst env1 = Inr (Some art1)" "deletedAt art1 = None"
    and ok2: "findFirst env2 = Inr (Some art2)" "deletedAt art2 = None"
    and same: "rateLimitKey (userIdOrGuest (user req2)) (paramsId req2)
                 = rateLimitKey (userIdOrGuest (user req1)) (paramsId req1)"
    and first: "admits (map_of (readRateLimit s) (rateLimitKey (userIdOrGuest (user req1)) (paramsId req1)))
                  (dateNow env1)"
    and clock: "dateNow env1 \<noteq> 0"
  shows "readLogs (snd (getById env2 req2 (snd (getById env1 req1 s)))) =
           (if dateNow env2 - dateNow env1 > READ_RATE_LIMIT_MS
            then createReadLog env2 (paramsId req2) (user req2)
                   (createReadLog env1 (paramsId req1) (user req1) (readLogs s))
            else createReadLog env1 (paramsId req1) (user req1) (readLogs s))"
proof -
  let ?key = "rateLimitKey (userIdOrGuest (user req1)) (paramsId req1)"
  let ?s1 = "snd (getById env1 req1 s)"
  have logs1: "readLogs ?s1 = createReadLog env1 (paramsId req1) (user req1) (readLogs s)"
    and cache1: "map_of (readRateLimit ?s1) ?key = Some (dateNow env1)"
    using getById_admitted [OF ok1 first] by simp_all
  have gate: "admits (map_of (readRateLimit ?s1) (rateLimitKey (userIdOrGuest (user req2)) (paramsId req2)))
                (dateNow env2) \<longleftrightarrow> dateNow env2 - dateNow env1 > READ_RATE_LIMIT_MS"
    using clock by (simp add: same cache1 admits_def)
  show ?thesis
  proof (cases "dateNow env2 - dateNow env1 > READ_RATE_LIMIT_MS")
    case True
    with gate getById_admitted(1) [OF ok2, of ?s1 req2] logs1 show ?thesis by simp
  next
    case False
    with gate getById_dropped(1) [OF ok2, of ?s1 req2] logs1 show ?thesis by simp
  qed
qed

lemma cleanup_over_threshold:
  assumes "distinct (map fst (readRateLimit s))" and "length (readRateLimit s) > 10000"
  shows "map_of (readRateLimit (cleanup now s)) k =
           (case map_of (readRateLimit s) k of
              None \<Rightarrow> None
            | Some t \<Rightarrow> if t < now - 10000 then None else Some t)"
  using assms map_of_filter_value [where P = "\<lambda>t. \<not> t < now - 10000" and xs = "readRateLimit s" and k = k]
  by (simp add: cleanup_def Let_def READ_RATE_LIMIT_MS_def split: option.splits)

text \<open>
  Two invariants of the rate-limit map, true of the empty map at process start and kept by
  every call: its keys are unique, and on a clock after the epoch its timestamps are
  positive.
\<close>

lemma getById_keeps_keys_unique:
  "distinct (map fst (readRateLimit s)) \<Longrightarrow>
   distinct (map fst (readRateLimit (snd (getById env req s))))"
proof -
  assume d: "distinct (map fst (readRateLimit s))"
  have c: "distinct (map fst (readRateLimit (cleanup now s')))"
    if "distinct (map fst (readRateLimit s'))" for now s'
    using that by (simp add: cleanup_def Let_def distinct_map_filter)
  show ?thesis
    using d c [OF trackRead_distinct [OF d]]
    by (simp add: getById_def split: sum.splits option.splits)
qed

lemma getById_keeps_timestamps_positive:
  assumes "\<forall>p\<in>set (readRateLimit s). 0 < snd p" and "0 < dateNow env"
  shows "\<forall>p\<in>set (readRateLimit (snd (getById env req s))). 0 < snd p"
proof -
  have t: "\<forall>p\<in>set (readRateLimit (trackRead env req s)). 0 < snd p"
    using assms set_update_subset [of "rateLimitKey (userIdOrGuest (user req)) (paramsId req)"
                                      "dateNow env" "readRateLimit s"]
    by (auto simp: trackRead_def Let_def)
  have c: "\<forall>p\<in>set (readRateLimit (cleanup now s')). 0 < snd p"
    if "\<forall>p\<in>set (readRateLimit s'). 0 < snd p" for now s'
    using that by (simp add: cleanup_def Let_def)
  show ?thesis
    using assms(1) c [OF t]
    by (simp add: getById_def split: sum.splits option.splits)
qed

lemma manyReaders_length: "length (manyReaders aid t n) = n"
  by (simp add: manyReaders_def)

lemma manyReaders_distinct: "distinct (map fst (manyReaders aid t n))"
  by (simp add: manyReaders_def distinct_map comp_def inj_on_def rateLimitKey_def)

lemma manyReaders_guest: "map_of (manyReaders aid t n) (rateLimitKey ''guest'' aid) = None"
  by (auto simp: manyReaders_def map_of_eq_None_iff image_iff rateLimitKey_def)

lemma manyReaders_first: "0 < n \<Longrightarrow> map_of (manyReaders aid t n) (rateLimitKey ''u'' aid) = Some t"
  by (simp add: manyReaders_def upt_conv_Cons)

text \<open>
  The map and the rows stay in step along every orderly sequence of calls, so the gate can be
  read off the rows.
\<close>

lemma rowActor_created:
  "rowActor \<lparr>articleId = a, readerId = readerIdOrNull u, readAt = t\<rparr> = userIdOrGuest u"
  by (simp add: rowActor_def readerIdOrNull_def userIdOrGuest_def split: option.splits)

lemma inSync_later: "inSync T s \<Longrightarrow> T \<le> T' \<Longrightarrow> inSync T' s"
  unfolding inSync_def by (elim conjE, intro conjI) force+

lemma trackRead_inSync:
  assumes inv: "inSync T s" and T: "T \<le> dateNow env" and pos: "0 < dateNow env"
    and cr: "\<not> createFails env"
  shows "inSync (dateNow env) (trackRead env req s)"
proof (cases "admits (map_of (readRateLimit s) (rateLimitKey (userIdOrGuest (user req)) (paramsId req))) (dateNow env)")
  case False
  then have "trackRead env req s = s" by (simp add: trackRead_def Let_def)
  then show ?thesis using inSync_later [OF inv T] by simp
next
  case True
  define k0 where "k0 = rateLimitKey (userIdOrGuest (user req)) (paramsId req)"
  define now where "now = dateNow env"
  define row where "row = \<lparr>articleId = paramsId req, readerId = readerIdOrNull (user req), readAt = now\<rparr>"
  define c where "c = readRateLimit s"
  define ls where "ls = readLogs s"
  have s': "trackRead env req s = \<lparr>readRateLimit = AList.update k0 now c, readLogs = ls @ [row]\<rparr>"
    using True cr by (simp add: trackRead_def Let_def createReadLog_def k0_def now_def row_def c_def ls_def)
  have rk: "rowKey row = k0" and rt: "readAt row = now"
    by (simp_all add: rowKey_def row_def rowActor_created k0_def)
  from inv have d: "distinct (map fst c)"
    and rows: "\<forall>r\<in>set ls. 0 < readAt r \<and> readAt r \<le> T"
    and some: "\<And>k t. map_of c k = Some t \<Longrightarrow>
        (\<exists>r\<in>set ls. rowKey r = k \<and> readAt r = t) \<and> (\<forall>r\<in>set ls. rowKey r = k \<longrightarrow> readAt r \<le> t)"
    and none: "\<forall>r\<in>set ls. map_of c (rowKey r) = None \<longrightarrow> readAt r + 10000 < T"
    unfolding inSync_def c_def ls_def by blast+
  have m: "map_of (AList.update k0 now c) k = (if k = k0 then Some now else map_of c k)" for k
    by (simp add: AList.update_conv')
  have 1: "distinct (map fst (AList.update k0 now c))" using d by (rule AList.distinct_update)
  have 2: "\<forall>r\<in>set (ls @ [row]). 0 < readAt r \<and> readAt r \<le> now"
    using rows T pos rt by (auto simp: now_def)
  have 3: "(\<exists>r\<in>set (ls @ [row]). rowKey r = k \<and> readAt r = t) \<and>
           (\<forall>r\<in>set (ls @ [row]). rowKey r = k \<longrightarrow> readAt r \<le> t)"
    if "map_of (AList.update k0 now c) k = Some t" for k t
  proof (cases "k = k0")
    case True
    with that have "t = now" by (simp add: m)
    then show ?thesis using True rk rt rows T by (auto simp: now_def)
  next
    case False
    with that have "map_of c k = Some t" by (simp add: m)
    from some [OF this] show ?thesis using False rk by auto
  qed
  have 4: "\<forall>r\<in>set (ls @ [row]). map_of (AList.update k0 now c) (rowKey r) = None \<longrightarrow> readAt r + 10000 < now"
  proof
    fix r assume r: "r \<in> set (ls @ [row])"
    show "map_of (AList.update k0 now c) (rowKey r) = None \<longrightarrow> readAt r + 10000 < now"
    proof
      assume n: "map_of (AList.update k0 now c) (rowKey r) = None"
      then have ne: "rowKey r \<noteq> k0" by (auto simp: m split: if_splits)
      with r rk have "r \<in> set ls" by auto
      moreover from n ne have "map_of c (rowKey r) = None" by (simp add: m)
      ultimately have "readAt r + 10000 < T" using none by blast
      then show "readAt r + 10000 < now" using T by (simp add: now_def)
    qed
  qed
  show ?thesis
    unfolding inSync_def s' now_def [symmetric]
    using 1 2 3 4 by simp
qed

lemma cleanup_inSync:
  assumes inv: "inSync now s"
  shows "inSync now (cleanup now s)"
proof (cases "length (readRateLimit s) > 10000")
  case False
  then show ?thesis using inv by (simp add: cleanup_def)
next
  case True
  define c where "c = readRateLimit s"
  define ls where "ls = readLogs s"
  define c' where "c' = filter (\<lambda>(key, timestamp). \<not> timestamp < now - 10000) c"
  have s': "cleanup now s = s\<lparr>readRateLimit := c'\<rparr>"
    using True by (simp add: cleanup_def Let_def c'_def c_def READ_RATE_LIMIT_MS_def)
  from inv have d: "distinct (map fst c)"
    and rows: "\<forall>r\<in>set ls. 0 < readAt r \<and> readAt r \<le> now"
    and some: "\<And>k t. map_of c k = Some t \<Longrightarrow>
        (\<exists>r\<in>set ls. rowKey r = k \<and> readAt r = t) \<and> (\<forall>r\<in>set ls. rowKey r = k \<longrightarrow> readAt r \<le> t)"
    and none: "\<forall>r\<in>set ls. map_of c (rowKey r) = None \<longrightarrow> readAt r + 10000 < now"
    unfolding inSync_def c_def ls_def by blast+
  have m: "map_of c' k = (case map_of c k of None \<Rightarrow> None
                          | Some t \<Rightarrow> if \<not> t < now - 10000 then Some t else None)" for k
    unfolding c'_def by (rule map_of_filter_value [OF d])
  have 1: "distinct (map fst c')" using d by (simp add: c'_def distinct_map_filter)
  have 3: "(\<exists>r\<in>set ls. rowKey r = k \<and> readAt r = t) \<and> (\<forall>r\<in>set ls. rowKey r = k \<longrightarrow> readAt r \<le> t)"
    if "map_of c' k = Some t" for k t
  proof -
    from that have "map_of c k = Some t" by (auto simp: m split: option.splits if_splits)
    then show ?thesis by (rule some)
  qed
  have 4: "\<forall>r\<in>set ls. map_of c' (rowKey r) = None \<longrightarrow> readAt r + 10000 < now"
  proof
    fix r assume r: "r \<in> set ls"
    show "map_of c' (rowKey r) = None \<longrightarrow> readAt r + 10000 < now"
    proof (cases "map_of c (rowKey r)")
      case None
      then show ?thesis using none r by blast
    next
      case (Some t)
      show ?thesis
      proof
        assume "map_of c' (rowKey r) = None"
        then have "t < now - 10000" using Some by (auto simp: m split: if_splits)
        moreover have "readAt r \<le> t" using some [OF Some] r by blast
        ultimately show "readAt r + 10000 < now" by simp
      qed
    qed
  qed
  show ?thesis
    unfolding inSync_def s' using 1 rows 3 4 by (simp add: ls_def)
qed

lemma getById_inSync:
  assumes "inSync T s" "T \<le> dateNow env" "0 < dateNow env" "\<not> createFails env"
  shows "inSync (dateNow env) (snd (getById env req s))"
  using inSync_later [OF assms(1,2)] cleanup_inSync [OF trackRead_inSync [OF assms]]
  by (simp add: getById_def split: sum.splits option.splits)

lemma orderly_lastClock: "orderly t calls \<Longrightarrow> t \<le> lastClock t calls"
  by (induction t calls rule: orderly.induct) auto

lemma orderly_append:
  "orderly t (calls @ [(env, req)]) \<longleftrightarrow>
     orderly t calls \<and> lastClock t calls \<le> dateNow env \<and> \<not> createFails env"
  by (induction t calls rule: orderly.induct) auto

lemma serve_inSync:
  "orderly t calls \<Longrightarrow> 0 < t \<Longrightarrow> inSync t s \<Longrightarrow> inSync (lastClock t calls) (serve calls s)"
proof (induction t calls arbitrary: s rule: orderly.induct)
  case (1 t)
  then show ?case by (simp add: serve_def)
next
  case (2 t env req calls)
  from "2.prems" have le: "t \<le> dateNow env" and cr: "\<not> createFails env"
    and rest: "orderly (dateNow env) calls" by simp_all
  have pos: "0 < dateNow env" using le "2.prems"(2) by simp
  have "inSync (dateNow env) (snd (getById env req s))"
    using "2.prems"(3) le pos cr by (rule getById_inSync)
  from "2.IH" [OF rest pos this] show ?case by (simp add: serve_def)
qed

lemma processStart_inSync: "inSync 1 processStart"
  by (simp add: inSync_def processStart_def)


lemma gate_by_rows:
  assumes inv: "inSync T s" and T: "T \<le> now"
  shows "admits (map_of (readRateLimit s) k) now \<longleftrightarrow>
           (\<forall>r\<in>set (readLogs s). rowKey r = k \<longrightarrow> now - readAt r > 10000)"
proof (cases "map_of (readRateLimit s) k")
  case None
  have "now - readAt r > 10000" if "r \<in> set (readLogs s)" "rowKey r = k" for r
  proof -
    from inv that None have "readAt r + 10000 < T" unfolding inSync_def by blast
    then show ?thesis using T by simp
  qed
  then show ?thesis using None by (simp add: admits_def)
next
  case (Some t)
  from inv Some obtain r0 where r0: "r0 \<in> set (readLogs s)" "rowKey r0 = k" "readAt r0 = t"
    and mx: "\<forall>r\<in>set (readLogs s). rowKey r = k \<longrightarrow> readAt r \<le> t"
    unfolding inSync_def by blast
  from inv r0 have "0 < t" unfolding inSync_def by blast
  then have a: "admits (map_of (readRateLimit s) k) now \<longleftrightarrow> now - t > 10000"
    using Some by (simp add: admits_def READ_RATE_LIMIT_MS_def)
  show ?thesis
  proof
    assume "admits (map_of (readRateLimit s) k) now"
    then have "now - t > 10000" using a by simp
    then show "\<forall>r\<in>set (readLogs s). rowKey r = k \<longrightarrow> now - readAt r > 10000"
      using mx by fastforce
  next
    assume "\<forall>r\<in>set (readLogs s). rowKey r = k \<longrightarrow> now - readAt r > 10000"
    then have "now - t > 10000" using r0 by blast
    then show "admits (map_of (readRateLimit s) k) now" using a by simp
  qed
qed

lemma getById_rows:
  "set (readLogs (snd (getById env req s))) \<subseteq>
     insert \<lparr>articleId = paramsId req, readerId = readerIdOrNull (user req), readAt = dateNow env\<rparr>
       (set (readLogs s))"
  by (auto simp: getById_def cleanup_readLogs trackRead_def Let_def createReadLog_def
           split: sum.splits option.splits if_splits)

lemma serve_rows:
  "r \<in> set (readLogs (serve calls s)) \<Longrightarrow>
   r \<in> set (readLogs s) \<or>
   (\<exists>c\<in>set calls. rowActor r = userIdOrGuest (user (snd c)) \<and> articleId r = paramsId (snd c))"
proof (induction calls arbitrary: s)
  case Nil
  then show ?case by (simp add: serve_def)
next
  case (Cons c calls)
  obtain env req where c: "c = (env, req)" by (cases c)
  from Cons.prems have "r \<in> set (readLogs (serve calls (snd (getById env req s))))"
    by (simp add: serve_def c)
  from Cons.IH [OF this] show ?case
  proof
    assume "r \<in> set (readLogs (snd (getById env req s)))"
    then have "r = \<lparr>articleId = paramsId req, readerId = readerIdOrNull (user req), readAt = dateNow env\<rparr>
               \<or> r \<in> set (readLogs s)"
      using getById_rows [of env req s] by auto
    then show ?thesis by (auto simp: c rowActor_created)
  next
    assume "\<exists>c\<in>set calls. rowActor r = userIdOrGuest (user (snd c)) \<and> articleId r = paramsId (snd c)"
    then show ?thesis by auto
  qed
qed

text \<open>
  Key strings: they tell two pairs apart when the actor ids have the same length (as UUIDs
  have) or contain no dash, and they need not otherwise.
\<close>

lemma rateLimitKey_same_length:
  "length u = length u' \<Longrightarrow> rateLimitKey u a = rateLimitKey u' a' \<longleftrightarrow> u = u' \<and> a = a'"
  by (auto simp: rateLimitKey_def)

lemma takeWhile_until: "d \<notin> set u \<Longrightarrow> takeWhile (\<lambda>c. c \<noteq> d) (u @ d # a) = u"
  by (induction u) auto

lemma rateLimitKey_no_dash:
  assumes "CHR ''-'' \<notin> set u" "CHR ''-'' \<notin> set u'"
  shows "rateLimitKey u a = rateLimitKey u' a' \<longleftrightarrow> u = u' \<and> a = a'"
proof
  assume "rateLimitKey u a = rateLimitKey u' a'"
  then have e: "u @ CHR ''-'' # a = u' @ CHR ''-'' # a'" by (simp add: rateLimitKey_def)
  have "u = u'"
    using takeWhile_until [OF assms(1), of a] takeWhile_until [OF assms(2), of a'] e by simp
  with e show "u = u' \<and> a = a'" by simp
qed simp

lemma rateLimitKey_collision: "rateLimitKey ''u1-a'' ''b'' = rateLimitKey ''u1'' ''a-b''"
  by (simp add: rateLimitKey_def)

text \<open>
  C4. From process start, over any sequence of calls on a clock that starts after the epoch
  and never runs backwards, with no row creation rejected: a successful retrieval is
  admitted, creating its ReadLog row, exactly when every row created before for the same
  actor and article is more than 10000 ms before the current time (in particular when there
  is none). On admission the entry of the pair becomes the current time; on a drop it is
  unchanged. After an admitted read, a second read of the same actor and article at most
  10000 ms later creates no row, and one 10001 ms later creates a second row. The pair is
  assumed not to share its string \<^verbatim>\<open>`${userId}-${articleId}`\<close> with a different pair
  served before.
\<close>

theorem dedup_gate:
  fixes calls :: "Call list" and env1 env2 :: Env and req :: Request
  defines "s \<equiv> serve calls processStart"
    and "actor \<equiv> userIdOrGuest (user req)"
    and "e1 \<equiv> \<lparr>articleId = paramsId req, readerId = readerIdOrNull (user req), readAt = dateNow env1\<rparr>"
    and "e2 \<equiv> \<lparr>articleId = paramsId req, readerId = readerIdOrNull (user req), readAt = dateNow env2\<rparr>"
  defines "key \<equiv> rateLimitKey actor (paramsId req)"
    and "s1 \<equiv> snd (getById env1 req s)"
    and "free \<equiv> (\<forall>r\<in>set (readLogs s).
                    rowActor r = actor \<and> articleId r = paramsId req \<longrightarrow> dateNow env1 - readAt r > 10000)"
  defines "s2 \<equiv> snd (getById env2 req s1)"
  assumes trace: "orderly 1 (calls @ [(env1, req)])"
    and ok1: "findFirst env1 = Inr (Some art1)" "deletedAt art1 = None"
    and ok2: "findFirst env2 = Inr (Some art2)" "deletedAt art2 = None" "\<not> createFails env2"
    and apart: "\<forall>c\<in>set calls.
                  userIdOrGuest (user (snd c)) @ ''-'' @ paramsId (snd c) = actor @ ''-'' @ paramsId req \<longrightarrow>
                  userIdOrGuest (user (snd c)) = actor \<and> paramsId (snd c) = paramsId req"
  shows "(if free
          then readLogs s1 = readLogs s @ [e1] \<and> map_of (readRateLimit s1) key = Some (dateNow env1)
          else readLogs s1 = readLogs s \<and> map_of (readRateLimit s1) key = map_of (readRateLimit s) key) \<and>
         (free \<and> dateNow env2 - dateNow env1 \<le> 10000 \<longrightarrow> readLogs s2 = readLogs s @ [e1]) \<and>
         (free \<and> dateNow env2 - dateNow env1 = 10001 \<longrightarrow> readLogs s2 = readLogs s @ [e1, e2])"
proof -
  from trace have ord: "orderly 1 calls" and le: "lastClock 1 calls \<le> dateNow env1"
    and cr1: "\<not> createFails env1"
    by (simp_all add: orderly_append)
  have inv: "inSync (lastClock 1 calls) s"
    unfolding s_def using ord processStart_inSync by (intro serve_inSync) simp_all
  have pos: "0 < dateNow env1" using orderly_lastClock [OF ord] le by simp
  have pair: "rowKey r = key \<longleftrightarrow> rowActor r = actor \<and> articleId r = paramsId req"
    if r: "r \<in> set (readLogs s)" for r
  proof
    assume k: "rowKey r = key"
    from r have "r \<in> set (readLogs processStart) \<or>
       (\<exists>c\<in>set calls. rowActor r = userIdOrGuest (user (snd c)) \<and> articleId r = paramsId (snd c))"
      unfolding s_def by (rule serve_rows)
    then obtain c where c: "c \<in> set calls" "rowActor r = userIdOrGuest (user (snd c))"
        "articleId r = paramsId (snd c)"
      by (auto simp: processStart_def)
    with k have "userIdOrGuest (user (snd c)) @ ''-'' @ paramsId (snd c) = actor @ ''-'' @ paramsId req"
      by (simp add: rowKey_def key_def rateLimitKey_def)
    with apart c show "rowActor r = actor \<and> articleId r = paramsId req" by auto
  next
    assume "rowActor r = actor \<and> articleId r = paramsId req"
    then show "rowKey r = key" by (simp add: rowKey_def key_def)
  qed
  have adm: "admits (map_of (readRateLimit s) key) (dateNow env1) \<longleftrightarrow> free"
    unfolding gate_by_rows [OF inv le] free_def using pair by blast
  have c1: "createReadLog env1 (paramsId req) (user req) (readLogs s) = readLogs s @ [e1]"
    using cr1 by (simp add: createReadLog_def e1_def)
  have c2: "createReadLog env2 (paramsId req) (user req) (readLogs s @ [e1]) = readLogs s @ [e1, e2]"
    using ok2(3) by (simp add: createReadLog_def e2_def)
  have first: "if free
          then readLogs s1 = readLogs s @ [e1] \<and> map_of (readRateLimit s1) key = Some (dateNow env1)
          else readLogs s1 = readLogs s \<and> map_of (readRateLimit s1) key = map_of (readRateLimit s) key"
  proof (cases free)
    case True
    then have "admits (map_of (readRateLimit s) (rateLimitKey (userIdOrGuest (user req)) (paramsId req))) (dateNow env1)"
      using adm by (simp add: key_def actor_def)
    from getById_admitted [OF ok1 this] True show ?thesis
      by (simp add: s1_def key_def actor_def c1)
  next
    case False
    then have "\<not> admits (map_of (readRateLimit s) (rateLimitKey (userIdOrGuest (user req)) (paramsId req))) (dateNow env1)"
      using adm by (simp add: key_def actor_def)
    from getById_dropped [OF ok1 this] False show ?thesis
      by (simp add: s1_def key_def actor_def)
  qed
  have two: "free \<Longrightarrow> readLogs s2 =
           (if dateNow env2 - dateNow env1 > READ_RATE_LIMIT_MS then readLogs s @ [e1, e2]
            else readLogs s @ [e1])"
  proof -
    assume free
    then have a: "admits (map_of (readRateLimit s) (rateLimitKey (userIdOrGuest (user req)) (paramsId req))) (dateNow env1)"
      using adm by (simp add: key_def actor_def)
    have nz: "dateNow env1 \<noteq> 0" using pos by simp
    show ?thesis
      using second_read [OF ok1 ok2(1,2) refl a nz] by (simp add: s1_def s2_def c1 c2)
  qed
  show ?thesis
    using first two by (simp add: READ_RATE_LIMIT_MS_def)
qed

theorem dedup_gate_witness:
  "readLogs (snd (getById
       \<lparr>dateNow = 1704153601000, findFirst = Inr (Some \<lparr>deletedAt = None\<rparr>), createFails = False\<rparr>
       \<lparr>paramsId = ''a1'', user = Some ''u2'', remoteAddr = ''10.0.0.2''\<rparr>
       (serve [(\<lparr>dateNow = 1704153599000, findFirst = Inr (Some \<lparr>deletedAt = None\<rparr>), createFails = False\<rparr>,
                \<lparr>paramsId = ''a1'', user = Some ''u1'', remoteAddr = ''10.0.0.1''\<rparr>)] processStart)))
     = [\<lparr>articleId = ''a1'', readerId = Some ''u1'', readAt = 1704153599000\<rparr>,
        \<lparr>articleId = ''a1'', readerId = Some ''u2'', readAt = 1704153601000\<rparr>] \<and>
   readLogs (snd (getById
       \<lparr>dateNow = 1704153611001, findFirst = Inr (Some \<lparr>deletedAt = None\<rparr>), createFails = False\<rparr>
       \<lparr>paramsId = ''a1'', user = Some ''u2'', remoteAddr = ''10.0.0.2''\<rparr>
       (snd (getById
          \<lparr>dateNow = 1704153601000, findFirst = Inr (Some \<lparr>deletedAt = None\<rparr>), createFails = False\<rparr>
          \<lparr>paramsId = ''a1'', user = Some ''u2'', remoteAddr = ''10.0.0.2''\<rparr>
          (serve [(\<lparr>dateNow = 1704153599000, findFirst = Inr (Some \<lparr>deletedAt = None\<rparr>), createFails = False\<rparr>,
                   \<lparr>paramsId = ''a1'', user = Some ''u1'', remoteAddr = ''10.0.0.1''\<rparr>)] processStart)))))
     = [\<lparr>articleId = ''a1'', readerId = Some ''u1'', readAt = 1704153599000\<rparr>,
        \<lparr>articleId = ''a1'', readerId = Some ''u2'', readAt = 1704153601000\<rparr>,
        \<lparr>articleId = ''a1'', readerId = Some ''u2'', readAt = 1704153611001\<rparr>] \<and>
   readLogs (snd (getById
       \<lparr>dateNow = 1704153609000, findFirst = Inr (Some \<lparr>deletedAt = None\<rparr>), createFails = False\<rparr>
       \<lparr>paramsId = ''a1'', user = Some ''u1'', remoteAddr = ''10.0.0.1''\<rparr>
       (serve [(\<lparr>dateNow = 1704153599000, findFirst = Inr (Some \<lparr>deletedAt = None\<rparr>), createFails = False\<rparr>,
                \<lparr>paramsId = ''a1'', user = Some ''u1'', remoteAddr = ''10.0.0.1''\<rparr>)] processStart)))
     = [\<lparr>articleId = ''a1'', readerId = Some ''u1'', readAt = 1704153599000\<rparr>]"
proof -
  let ?envA = "\<lparr>dateNow = 1704153599000, findFirst = Inr (Some \<lparr>deletedAt = None\<rparr>), createFails = False\<rparr>"
  let ?reqA = "\<lparr>paramsId = ''a1'', user = Some ''u1'', remoteAddr = ''10.0.0.1''\<rparr>"
  let ?reqB = "\<lparr>paramsId = ''a1'', user = Some ''u2'', remoteAddr = ''10.0.0.2''\<rparr>"
  let ?env1 = "\<lparr>dateNow = 1704153601000, findFirst = Inr (Some \<lparr>deletedAt = None\<rparr>), createFails = False\<rparr>"
  let ?env2 = "\<lparr>dateNow = 1704153611001, findFirst = Inr (Some \<lparr>deletedAt = None\<rparr>), createFails = False\<rparr>"
  let ?env3 = "\<lparr>dateNow = 1704153609000, findFirst = Inr (Some \<lparr>deletedAt = None\<rparr>), createFails = False\<rparr>"
  have s: "serve [(?envA, ?reqA)] processStart =
             \<lparr>readRateLimit = [(''u1-a1'', 1704153599000)],
              readLogs = [\<lparr>articleId = ''a1'', readerId = Some ''u1'', readAt = 1704153599000\<rparr>]\<rparr>"
    by (simp add: serve_def processStart_def getById_def trackRead_def cleanup_def admits_def
          createReadLog_def readerIdOrNull_def userIdOrGuest_def rateLimitKey_def)
  show ?thesis
    using dedup_gate [where calls = "[(?envA, ?reqA)]" and ?env1.0 = ?env1 and ?env2.0 = ?env2
                        and req = ?reqB and ?art1.0 = "\<lparr>deletedAt = None\<rparr>"
                        and ?art2.0 = "\<lparr>deletedAt = None\<rparr>"]
          dedup_gate [where calls = "[(?envA, ?reqA)]" and ?env1.0 = ?env3 and ?env2.0 = ?env2
                        and req = ?reqA and ?art1.0 = "\<lparr>deletedAt = None\<rparr>"
                        and ?art2.0 = "\<lparr>deletedAt = None\<rparr>"]
    by (simp add: s rowActor_def readerIdOrNull_def userIdOrGuest_def rateLimitKey_def)
qed

text \<open>
  C9. Every anonymous read uses the one actor key \<^verbatim>\<open>guest\<close>, whoever the caller is: after an
  admitted anonymous read of an article, a second anonymous read of that article within the
  10000 ms window, from any address, creates no further ReadLog row.
\<close>

theorem anonymous_reads_coalesce:
  assumes ok1: "findFirst env1 = Inr (Some art1)" "deletedAt art1 = None" "\<not> createFails env1"
    and ok2: "findFirst env2 = Inr (Some art2)" "deletedAt art2 = None"
    and anon: "user req1 = None" "user req2 = None"
    and same: "paramsId req2 = paramsId req1"
    and first: "admits (map_of (readRateLimit s) (''guest-'' @ paramsId req1)) (dateNow env1)"
    and clock: "0 < dateNow env1"
    and window: "dateNow env2 - dateNow env1 \<le> 10000"
  shows "rateLimitKey (userIdOrGuest (user req1)) (paramsId req1) = ''guest-'' @ paramsId req1 \<and>
         rateLimitKey (userIdOrGuest (user req2)) (paramsId req2) = ''guest-'' @ paramsId req1 \<and>
         readLogs (snd (getById env2 req2 (snd (getById env1 req1 s)))) =
           readLogs s @ [\<lparr>articleId = paramsId req1, readerId = None, readAt = dateNow env1\<rparr>]"
proof -
  have k1: "rateLimitKey (userIdOrGuest (user req1)) (paramsId req1) = ''guest-'' @ paramsId req1"
    by (simp add: anon rateLimitKey_def userIdOrGuest_def)
  have k2: "rateLimitKey (userIdOrGuest (user req2)) (paramsId req2) = ''guest-'' @ paramsId req1"
    by (simp add: anon same rateLimitKey_def userIdOrGuest_def)
  have a: "admits (map_of (readRateLimit s) (rateLimitKey (userIdOrGuest (user req1)) (paramsId req1)))
             (dateNow env1)"
    using first by (simp only: k1)
  have nz: "dateNow env1 \<noteq> 0" using clock by simp
  have "readLogs (snd (getById env2 req2 (snd (getById env1 req1 s)))) =
          createReadLog env1 (paramsId req1) (user req1) (readLogs s)"
    using second_read [OF ok1(1,2) ok2 _ a nz] window k1 k2 by (simp add: READ_RATE_LIMIT_MS_def)
  then show ?thesis
    using ok1(3) k1 k2 by (simp add: createReadLog_def readerIdOrNull_def anon)
qed

theorem anonymous_reads_coalesce_witness:
  "readLogs (snd (getById
       \<lparr>dateNow = 1704153604000, findFirst = Inr (Some \<lparr>deletedAt = None\<rparr>), createFails = False\<rparr>
       \<lparr>paramsId = ''a1'', user = None, remoteAddr = ''192.168.7.7''\<rparr>
       (snd (getById
          \<lparr>dateNow = 1704153599000, findFirst = Inr (Some \<lparr>deletedAt = None\<rparr>), createFails = False\<rparr>
          \<lparr>paramsId = ''a1'', user = None, remoteAddr = ''10.0.0.1''\<rparr>
          \<lparr>readRateLimit = [], readLogs = []\<rparr>))))
     = [\<lparr>articleId = ''a1'', readerId = None, readAt = 1704153599000\<rparr>]"
  using anonymous_reads_coalesce
          [where ?env1.0 = "\<lparr>dateNow = 1704153599000, findFirst = Inr (Some \<lparr>deletedAt = None\<rparr>), createFails = False\<rparr>"
             and ?env2.0 = "\<lparr>dateNow = 1704153604000, findFirst = Inr (Some \<lparr>deletedAt = None\<rparr>), createFails = False\<rparr>"
             and ?art1.0 = "\<lparr>deletedAt = None\<rparr>" and ?art2.0 = "\<lparr>deletedAt = None\<rparr>"
             and ?req1.0 = "\<lparr>paramsId = ''a1'', user = None, remoteAddr = ''10.0.0.1''\<rparr>"
             and ?req2.0 = "\<lparr>paramsId = ''a1'', user = None, remoteAddr = ''192.168.7.7''\<rparr>"
             and s = "\<lparr>readRateLimit = [], readLogs = []\<rparr>"]
  by (simp add: admits_def)

text \<open>
  C7. When the rate-limit map holds more than 10000 entries after the admission step of a
  successful retrieval, the same call compacts it: afterwards every entry admitted more than
  10000 ms ago is absent, and every other entry is present with its timestamp.
\<close>

theorem cleanup_evicts_stale_entries:
  assumes "findFirst env = Inr (Some art)" "deletedAt art = None"
    and "distinct (map fst (readRateLimit s))"
    and "length (readRateLimit (trackRead env req s)) > 10000"
  shows "map_of (readRateLimit (snd (getById env req s))) k =
           (case map_of (readRateLimit (trackRead env req s)) k of
              None \<Rightarrow> None
            | Some lastAdmittedAt \<Rightarrow>
                if dateNow env - lastAdmittedAt > 10000 then None else Some lastAdmittedAt)"
proof -
  have d: "distinct (map fst (readRateLimit (trackRead env req s)))"
    using assms(3) by (rule trackRead_distinct)
  show ?thesis
    using cleanup_over_threshold [OF d assms(4), of "dateNow env" k]
    by (auto simp: getById_found [OF assms(1,2)] split: option.splits)
qed

theorem cleanup_evicts_stale_entries_witness:
  "10000 < length (manyReaders ''a1'' 1704153500000 10001) \<and>
   map_of (readRateLimit (snd (getById
       \<lparr>dateNow = 1704153599000, findFirst = Inr (Some \<lparr>deletedAt = None\<rparr>), createFails = False\<rparr>
       \<lparr>paramsId = ''a1'', user = None, remoteAddr = ''10.0.0.1''\<rparr>
       \<lparr>readRateLimit = manyReaders ''a1'' 1704153500000 10001, readLogs = []\<rparr>))) ''guest-a1''
     = Some 1704153599000 \<and>
   map_of (readRateLimit (snd (getById
       \<lparr>dateNow = 1704153599000, findFirst = Inr (Some \<lparr>deletedAt = None\<rparr>), createFails = False\<rparr>
       \<lparr>paramsId = ''a1'', user = None, remoteAddr = ''10.0.0.1''\<rparr>
       \<lparr>readRateLimit = manyReaders ''a1'' 1704153500000 10001, readLogs = []\<rparr>))) ''u-a1''
     = None"
proof -
  let ?big = "manyReaders ''a1'' 1704153500000 10001"
  let ?env = "\<lparr>dateNow = 1704153599000, findFirst = Inr (Some \<lparr>deletedAt = None\<rparr>), createFails = False\<rparr>"
  let ?req = "\<lparr>paramsId = ''a1'', user = None, remoteAddr = ''10.0.0.1''\<rparr>"
  let ?s = "\<lparr>readRateLimit = ?big, readLogs = []\<rparr>"
  have len: "10000 < length ?big" by (simp add: manyReaders_length)
  have dist: "distinct (map fst (readRateLimit ?s))"
    by (simp add: manyReaders_distinct)
  have nokey: "map_of ?big ''guest-a1'' = None"
    using manyReaders_guest [of "''a1''" 1704153500000 10001] by (simp add: rateLimitKey_def)
  have head: "map_of ?big ''u-a1'' = Some 1704153500000"
    using manyReaders_first [of 10001 "''a1''" 1704153500000] by (simp add: rateLimitKey_def)
  have tr: "readRateLimit (trackRead ?env ?req ?s) = AList.update ''guest-a1'' 1704153599000 ?big"
    using nokey by (simp add: trackRead_def Let_def admits_def rateLimitKey_def userIdOrGuest_def)
  have over: "10000 < length (readRateLimit (trackRead ?env ?req ?s))"
    using len trackRead_length [of ?s ?env ?req] by simp
  have f: "findFirst ?env = Inr (Some \<lparr>deletedAt = None\<rparr>)" by simp
  have nd: "deletedAt \<lparr>deletedAt = None\<rparr> = None" by simp
  show ?thesis
    using cleanup_evicts_stale_entries [OF f nd dist over, of "''guest-a1''"]
          cleanup_evicts_stale_entries [OF f nd dist over, of "''u-a1''"]
          len
    by (simp add: tr AList.update_conv' head)
qed

text \<open>
  C10. Read tracking fires only on a successful retrieval: a request for an article that does
  not exist is answered 404 and one for a soft-deleted article 410, and in both cases the
  rate-limit map and the ReadLog table are left exactly as they were.
\<close>

theorem getById_missing_or_deleted_untouched:
  "(findFirst env = Inr None \<longrightarrow> getById env req s = (404, s)) \<and>
   (findFirst env = Inr (Some article) \<and> deletedAt article \<noteq> None \<longrightarrow> getById env req s = (410, s))"
  by (simp add: getById_def)

theorem getById_missing_or_deleted_untouched_witness:
  "getById \<lparr>dateNow = 1704153599000, findFirst = Inr None, createFails = False\<rparr>
           \<lparr>paramsId = ''a1'', user = Some ''u1'', remoteAddr = ''10.0.0.1''\<rparr>
           \<lparr>readRateLimit = [(''u1-a1'', 1704153590000)], readLogs = []\<rparr>
     = (404, \<lparr>readRateLimit = [(''u1-a1'', 1704153590000)], readLogs = []\<rparr>) \<and>
   getById \<lparr>dateNow = 1704153599000, findFirst = Inr (Some \<lparr>deletedAt = Some 1704000000000\<rparr>),
            createFails = False\<rparr>
           \<lparr>paramsId = ''a1'', user = None, remoteAddr = ''10.0.0.1''\<rparr>
           \<lparr>readRateLimit = [], readLogs = []\<rparr>
     = (410, \<lparr>readRateLimit = [], readLogs = []\<rparr>)"
  using getById_missing_or_deleted_untouched
          [where env = "\<lparr>dateNow = 1704153599000, findFirst = Inr None, createFails = False\<rparr>"
             and req = "\<lparr>paramsId = ''a1'', user = Some ''u1'', remoteAddr = ''10.0.0.1''\<rparr>"
             and s = "\<lparr>readRateLimit = [(''u1-a1'', 1704153590000)], readLogs = []\<rparr>"]
        getById_missing_or_deleted_untouched
          [where env = "\<lparr>dateNow = 1704153599000,
                         findFirst = Inr (Some \<lparr>deletedAt = Some 1704000000000\<rparr>),
                         createFails = False\<rparr>"
             and article = "\<lparr>deletedAt = Some 1704000000000\<rparr>"
             and req = "\<lparr>paramsId = ''a1'', user = None, remoteAddr = ''10.0.0.1''\<rparr>"
             and s = "\<lparr>readRateLimit = [], readLogs = []\<rparr>"]
  by simp

section \<open>Properties of aggregation\<close>

subsection \<open>The upsert loops\<close>

lemma upsertDates_flat:
  "upsertDates db a dates (t, n) = upsertAll db (map (\<lambda>(d, c). ((a, d), c)) dates) (t, n)"
  by (induction dates arbitrary: t n) (auto split: sum.splits)

lemma upsertAll_append:
  "upsertAll db (xs @ ys) (t, n) =
     (case upsertAll db xs (t, n) of
        (Some e, t', n') \<Rightarrow> (Some e, t', n')
      | (None, t', n') \<Rightarrow> upsertAll db ys (t', n'))"
  by (induction xs arbitrary: t n) (auto split: sum.splits)

lemma upsertGrouped_flat: "upsertGrouped db g (t, n) = upsertAll db (entries g) (t, n)"
proof (induction g arbitrary: t n)
  case Nil
  then show ?case by (simp add: entries_def)
next
  case (Cons p g)
  obtain a dates where p: "p = (a, dates)" by (cases p)
  have e: "entries (p # g) = map (\<lambda>(d, c). ((a, d), c)) dates @ entries g"
    by (simp add: entries_def p)
  show ?case
    using Cons.IH
    by (simp add: e p upsertAll_append upsertDates_flat [symmetric] entries_def
             split: prod.splits option.splits)
qed

lemma upsert_ok: "\<not> upsertFails db k \<Longrightarrow> upsert db k c t = Inr (t(k \<mapsto> c))"
  by (simp add: upsert_def split: option.splits)

lemma upsert_fail: "upsertFails db k \<Longrightarrow> upsert db k c t = Inl DbError"
  by (simp add: upsert_def)

lemma upsertAll_ok:
  "\<forall>e\<in>set es. \<not> upsertFails db (fst e) \<Longrightarrow>
   upsertAll db es (t, n) = (None, applied es t, n + length es)"
  by (induction es arbitrary: t n) (auto simp: applied_def upsert_ok)

lemma upsertAll_stop:
  "\<forall>e\<in>set pre. \<not> upsertFails db (fst e) \<Longrightarrow> upsertFails db k \<Longrightarrow>
   upsertAll db (pre @ (k, c) # post) (t, n) = (Some DbError, applied pre t, n + length pre)"
  by (simp add: upsertAll_append upsertAll_ok upsert_fail)

lemma applied_Cons: "applied ((k, c) # es) t = applied es (t(k \<mapsto> c))"
  by (simp add: applied_def)

lemma applied_lookup:
  "distinct (map fst es) \<Longrightarrow>
   applied es t k = (case map_of es k of None \<Rightarrow> t k | Some c \<Rightarrow> Some c)"
proof (induction es arbitrary: t)
  case Nil
  then show ?case by (simp add: applied_def)
next
  case (Cons p es)
  obtain k0 c0 where p: "p = (k0, c0)" by (cases p)
  from Cons.prems have none: "map_of es k0 = None" and d: "distinct (map fst es)"
    by (auto simp: p map_of_eq_None_iff)
  have "applied (p # es) t k = (case map_of es k of None \<Rightarrow> (t(k0 \<mapsto> c0)) k | Some c \<Rightarrow> Some c)"
    unfolding p applied_Cons by (rule Cons.IH [OF d])
  also have "\<dots> = (case map_of (p # es) k of None \<Rightarrow> t k | Some c \<Rightarrow> Some c)"
    using none by (cases "k = k0") (simp_all add: p split: option.splits)
  finally show ?case .
qed

lemma applied_untouched: "k \<notin> fst ` set es \<Longrightarrow> applied es t k = t k"
proof (induction es arbitrary: t)
  case Nil
  then show ?case by (simp add: applied_def)
next
  case (Cons p es)
  obtain k0 c0 where p: "p = (k0, c0)" by (cases p)
  from Cons.prems have "k \<noteq> k0" and "k \<notin> fst ` set es" by (auto simp: p)
  then show ?case
    unfolding p applied_Cons by (simp add: Cons.IH)
qed

subsection \<open>The grouping loop\<close>

lemma look_addLog:
  "look (addLog l g) a d =
     (if a = articleId l \<and> d = utcMidnight (readAt l)
      then Some (Suc (case look g a d of None \<Rightarrow> 0 | Some c \<Rightarrow> c))
      else look g a d)"
  by (auto simp: look_def addLog_def Let_def AList.update_conv' split: option.splits)

lemma viewsOn_Cons:
  "viewsOn (l # logs) a d =
     (if a = articleId l \<and> d = utcMidnight (readAt l) then Suc (viewsOn logs a d) else viewsOn logs a d)"
  by (auto simp: viewsOn_def)

lemma look_fold:
  "look (fold addLog logs g) a d =
     (if viewsOn logs a d = 0 then look g a d
      else Some ((case look g a d of None \<Rightarrow> 0 | Some c \<Rightarrow> c) + viewsOn logs a d))"
proof (induction logs arbitrary: g)
  case Nil
  then show ?case by (simp add: viewsOn_def)
next
  case (Cons l logs)
  show ?case
    by (simp add: Cons.IH look_addLog viewsOn_Cons split: option.splits)
qed

lemma look_groupLogs:
  "look (groupLogs logs) a d = (if viewsOn logs a d = 0 then None else Some (viewsOn logs a d))"
  by (simp add: groupLogs_def look_fold) (simp add: look_def)

lemma uniqueKeys_iff:
  "uniqueKeys g \<longleftrightarrow> distinct (map fst g) \<and> (\<forall>p\<in>set g. distinct (map fst (snd p)))"
  by (auto simp: uniqueKeys_def list_all_iff)

lemma uniqueKeys_update:
  assumes "uniqueKeys g" and "distinct (map fst dates)"
  shows "uniqueKeys (AList.update a dates g)"
proof -
  have "\<forall>p\<in>set (AList.update a dates g). distinct (map fst (snd p))"
  proof
    fix p assume "p \<in> set (AList.update a dates g)"
    then have "p = (a, dates) \<or> p \<in> set g"
      using set_update_subset [of a dates g] by auto
    then show "distinct (map fst (snd p))"
      using assms by (auto simp: uniqueKeys_iff)
  qed
  then show ?thesis
    using assms(1) by (simp add: uniqueKeys_iff AList.distinct_update)
qed

lemma uniqueKeys_lookup:
  "uniqueKeys g \<Longrightarrow> map_of g a = Some dates \<Longrightarrow> distinct (map fst dates)"
  by (auto simp: uniqueKeys_iff dest!: map_of_SomeD)

lemma uniqueKeys_addLog:
  assumes g: "uniqueKeys g"
  shows "uniqueKeys (addLog l g)"
proof (cases "map_of g (articleId l)")
  case None
  have "addLog l g = AList.update (articleId l) [(utcMidnight (readAt l), 1)] g"
    using None by (simp add: addLog_def Let_def AList.update_conv')
  then show ?thesis
    using uniqueKeys_update [OF g, of "[(utcMidnight (readAt l), 1)]" "articleId l"] by simp
next
  case (Some dates)
  have d: "distinct (map fst dates)" using g Some by (rule uniqueKeys_lookup)
  have "addLog l g =
          AList.update (articleId l)
            (AList.update (utcMidnight (readAt l))
               (Suc (case map_of dates (utcMidnight (readAt l)) of None \<Rightarrow> 0 | Some c \<Rightarrow> c)) dates) g"
    using Some by (simp add: addLog_def Let_def)
  then show ?thesis
    using uniqueKeys_update [OF g AList.distinct_update [OF d]] by simp
qed

lemma uniqueKeys_fold: "uniqueKeys g \<Longrightarrow> uniqueKeys (fold addLog logs g)"
  by (induction logs arbitrary: g) (simp_all add: uniqueKeys_addLog)

lemma uniqueKeys_groupLogs: "uniqueKeys (groupLogs logs)"
proof -
  have "uniqueKeys []" by (simp add: uniqueKeys_def)
  then show ?thesis unfolding groupLogs_def by (rule uniqueKeys_fold)
qed

lemma entries_Cons:
  "entries ((a0, dates) # g) = map (\<lambda>(d, c). ((a0, d), c)) dates @ entries g"
  by (simp add: entries_def)

lemma map_of_article_dates:
  "map_of (map (\<lambda>(d, c). ((a0, d), c)) dates) (a, d) = (if a = a0 then map_of dates d else None)"
  by (induction dates) auto

lemma map_of_entries:
  "distinct (map fst g) \<Longrightarrow> map_of (entries g) (a, d) = look g a d"
proof (induction g)
  case Nil
  then show ?case by (simp add: entries_def look_def)
next
  case (Cons p g)
  obtain a0 dates where p: "p = (a0, dates)" by (cases p)
  note inner = map_of_article_dates [of a0 dates]
  from Cons.prems have notin: "map_of g a0 = None" and dg: "distinct (map fst g)"
    by (auto simp: p map_of_eq_None_iff)
  have ih: "map_of (entries g) (a, d) = look g a d" using Cons.IH [OF dg] .
  show ?case
  proof (cases "a = a0")
    case True
    then have "look g a d = None" using notin by (simp add: look_def)
    with ih have "map_of (entries g) (a, d) = None" by simp
    then show ?thesis
      unfolding p entries_Cons using True
      by (simp add: inner map_add_def look_def split: option.splits)
  next
    case False
    then show ?thesis
      unfolding p entries_Cons using ih
      by (simp add: inner map_add_def look_def)
  qed
qed

lemma key_in_entries: "(a, d) \<in> fst ` set (entries g) \<Longrightarrow> a \<in> fst ` set g"
proof (induction g)
  case Nil
  then show ?case by (simp add: entries_def)
next
  case (Cons p g)
  obtain a0 dates where p: "p = (a0, dates)" by (cases p)
  from Cons.prems have "a = a0 \<or> (a, d) \<in> fst ` set (entries g)"
    unfolding p entries_Cons by auto
  then show ?case using Cons.IH by (auto simp: p)
qed

lemma distinct_entries: "uniqueKeys g \<Longrightarrow> distinct (map fst (entries g))"
proof (induction g)
  case Nil
  then show ?case by (simp add: entries_def)
next
  case (Cons p g)
  obtain a0 dates where p: "p = (a0, dates)" by (cases p)
  from Cons.prems have u: "uniqueKeys g" and dd: "distinct (map fst dates)"
    and notin: "a0 \<notin> fst ` set g"
    by (auto simp: uniqueKeys_iff p)
  have m: "map fst (map (\<lambda>(d, c). ((a0, d), c)) dates) = map (\<lambda>d. (a0, d)) (map fst dates)"
    by (induction dates) auto
  have d1: "distinct (map fst (map (\<lambda>(d, c). ((a0, d), c)) dates))"
    unfolding m using dd by (simp add: distinct_map inj_on_def)
  have disj: "set (map fst (map (\<lambda>(d, c). ((a0, d), c)) dates)) \<inter> set (map fst (entries g)) = {}"
  proof -
    have "\<And>k. k \<in> set (map fst (map (\<lambda>(d, c). ((a0, d), c)) dates)) \<Longrightarrow> fst k = a0"
      unfolding m by auto
    moreover have "\<And>k. k \<in> set (map fst (entries g)) \<Longrightarrow> fst k \<noteq> a0"
      using notin key_in_entries [of _ _ g] by (metis list.set_map prod.collapse)
    ultimately show ?thesis by blast
  qed
  have "distinct (map fst (entries g))" using Cons.IH [OF u] .
  with d1 disj show ?case
    unfolding p entries_Cons map_append distinct_append by blast
qed

subsection \<open>The full run on a healthy database\<close>

lemma healthy_simps [simp]: "\<not> readFails healthy" "\<not> upsertFails healthy k"
  by (simp_all add: healthy_def)

lemma groupLogs_Nil: "entries (groupLogs []) = []"
  by (simp add: groupLogs_def entries_def)

lemma run_healthy:
  "runAggregationNow healthy logs t =
     (if logs = [] then (NoReadLogs, t)
      else (AggregationComplete (length (entries (groupLogs logs))) (length logs),
            applied (entries (groupLogs logs)) t))"
  by (simp add: runAggregationNow_def upsertGrouped_flat upsertAll_ok)

lemma run_healthy_table: "snd (runAggregationNow healthy logs t) = applied (entries (groupLogs logs)) t"
  by (simp add: run_healthy groupLogs_Nil applied_def)

lemma run_healthy_lookup:
  "snd (runAggregationNow healthy logs t) (a, d) =
     (if viewsOn logs a d = 0 then t (a, d) else Some (viewsOn logs a d))"
proof -
  have u: "uniqueKeys (groupLogs logs)" by (rule uniqueKeys_groupLogs)
  then have d: "distinct (map fst (groupLogs logs))" by (simp add: uniqueKeys_iff)
  show ?thesis
    by (simp add: run_healthy_table applied_lookup [OF distinct_entries [OF u]]
          map_of_entries [OF d] look_groupLogs)
qed

subsection \<open>The daily job on a healthy database\<close>

lemma floor_range:
  fixes x m :: int
  assumes "0 < m"
  shows "(x div m) * m \<le> x \<and> x < (x div m) * m + m"
proof -
  have "x = (x div m) * m + x mod m" by simp
  moreover have "0 \<le> x mod m" "x mod m < m" using assms by simp_all
  ultimately show ?thesis by linarith
qed

lemma floor_unique:
  fixes x m k :: int
  assumes "k * m \<le> x" "x < k * m + m"
  shows "x div m = k"
proof (rule int_div_pos_eq [where r = "x - k * m"])
  show "x = m * k + (x - k * m)" by (simp add: mult.commute)
  show "0 \<le> x - k * m" using assms by simp
  show "x - k * m < m" using assms by simp
qed

lemma utcMidnight_range: "utcMidnight x \<le> x \<and> x < utcMidnight x + MS_PER_DAY"
  unfolding utcMidnight_def using floor_range [of MS_PER_DAY x] by (simp add: MS_PER_DAY_def)

lemma utcMidnight_multiple: "utcMidnight (k * MS_PER_DAY) = k * MS_PER_DAY"
  by (simp add: utcMidnight_def MS_PER_DAY_def)

lemma utcMidnight_idem: "utcMidnight (utcMidnight x) = utcMidnight x"
  using utcMidnight_multiple [of "x div MS_PER_DAY"] by (simp add: utcMidnight_def)

lemma in_day_iff:
  assumes "utcMidnight D = D"
  shows "D \<le> x \<and> x < D + MS_PER_DAY \<longleftrightarrow> utcMidnight x = D"
proof
  assume r: "D \<le> x \<and> x < D + MS_PER_DAY"
  have D: "D = (D div MS_PER_DAY) * MS_PER_DAY"
    using assms by (simp add: utcMidnight_def)
  have "x div MS_PER_DAY = D div MS_PER_DAY"
    using r D by (intro floor_unique) simp_all
  then show "utcMidnight x = D" using D by (simp add: utcMidnight_def)
next
  assume "utcMidnight x = D"
  then show "D \<le> x \<and> x < D + MS_PER_DAY" using utcMidnight_range [of x] by simp
qed

lemma utcMidnight_yesterday: "utcMidnight (utcMidnight x - MS_PER_DAY) = utcMidnight x - MS_PER_DAY"
proof -
  have "utcMidnight x - MS_PER_DAY = (x div MS_PER_DAY - 1) * MS_PER_DAY"
    by (simp add: utcMidnight_def left_diff_distrib)
  then show ?thesis using utcMidnight_multiple [of "x div MS_PER_DAY - 1"] by simp
qed

lemma utcMidnight_tomorrow: "utcMidnight (utcMidnight x + MS_PER_DAY) = utcMidnight x + MS_PER_DAY"
proof -
  have "utcMidnight x + MS_PER_DAY = (x div MS_PER_DAY + 1) * MS_PER_DAY"
    by (simp add: utcMidnight_def distrib_right)
  then show ?thesis using utcMidnight_multiple [of "x div MS_PER_DAY + 1"] by simp
qed


lemma upsertEntries_healthy:
  "upsertEntries healthy day es t = (None, applied (map (\<lambda>(a, c). ((a, day), c)) es) t)"
  by (induction es arbitrary: t) (auto simp: applied_def upsert_ok)

lemma groupByArticle_distinct: "distinct (map fst (groupByArticle ls))"
  by (simp add: groupByArticle_def comp_def)

lemma map_of_groupByArticle:
  "map_of (groupByArticle ls) a =
     (if a \<in> articleId ` set ls then Some (length (filter (\<lambda>l. articleId l = a) ls)) else None)"
proof -
  have "map_of (map (\<lambda>a. (a, f a)) xs) a = (if a \<in> set xs then Some (f a) else None)" for f :: "string \<Rightarrow> nat" and xs
    by (induction xs) auto
  then show ?thesis by (simp add: groupByArticle_def)
qed

lemma map_of_day_entries:
  "map_of (map (\<lambda>(a, c). ((a, day), c)) es) (a, d) = (if d = day then map_of es a else None)"
  by (induction es) auto

lemma distinct_day_entries:
  "distinct (map fst es) \<Longrightarrow> distinct (map fst (map (\<lambda>(a, c). ((a, day), c)) es))"
proof -
  have "map fst (map (\<lambda>(a, c). ((a, day), c)) es) = map (\<lambda>a. (a, day)) (map fst es)"
    by (induction es) auto
  moreover assume "distinct (map fst es)"
  ultimately show ?thesis by (simp add: distinct_map inj_on_def)
qed

lemma filter_count_zero: "length (filter P xs) = 0 \<longleftrightarrow> (\<forall>x\<in>set xs. \<not> P x)"
  by (induction xs) auto

lemma process_healthy_ok: "fst (processAggregation healthy now logs t) = None"
  by (simp add: processAggregation_def Let_def upsertEntries_healthy)

lemma process_healthy_lookup:
  "snd (processAggregation healthy now logs t) (a, d) =
     (if d = utcMidnight now - MS_PER_DAY \<and> viewsOn logs a d \<noteq> 0
      then Some (viewsOn logs a d) else t (a, d))"
proof -
  define Y where "Y = utcMidnight now - MS_PER_DAY"
  define ls where "ls = filter (\<lambda>l. Y \<le> readAt l \<and> readAt l < utcMidnight now) logs"
  have Y: "utcMidnight Y = Y" unfolding Y_def by (rule utcMidnight_yesterday)
  have sel: "(Y \<le> x \<and> x < utcMidnight now) \<longleftrightarrow> utcMidnight x = Y" for x
    using in_day_iff [OF Y, of x] by (simp add: Y_def)
  have ls: "ls = filter (\<lambda>l. utcMidnight (readAt l) = Y) logs"
    unfolding ls_def by (simp add: sel)
  have cnt: "length (filter (\<lambda>l. articleId l = a) ls) = viewsOn logs a Y"
    unfolding ls viewsOn_def by (simp add: conj_commute)
  have mem: "a \<in> articleId ` set ls \<longleftrightarrow> viewsOn logs a Y \<noteq> 0"
    unfolding ls viewsOn_def by (auto simp: filter_empty_conv)
  have grp: "map_of (groupByArticle ls) a = (if viewsOn logs a Y \<noteq> 0 then Some (viewsOn logs a Y) else None)"
    unfolding map_of_groupByArticle cnt mem by simp
  have tab: "snd (processAggregation healthy now logs t) =
               applied (map (\<lambda>(a, c). ((a, Y), c)) (groupByArticle ls)) t"
    by (simp add: processAggregation_def Let_def upsertEntries_healthy Y_def ls_def)
  have "snd (processAggregation healthy now logs t) (a, d) =
          (case map_of (map (\<lambda>(a, c). ((a, Y), c)) (groupByArticle ls)) (a, d) of
             None \<Rightarrow> t (a, d) | Some c \<Rightarrow> Some c)"
    unfolding tab by (rule applied_lookup [OF distinct_day_entries [OF groupByArticle_distinct]])
  also have "\<dots> = (if d = Y \<and> viewsOn logs a d \<noteq> 0 then Some (viewsOn logs a d) else t (a, d))"
    unfolding map_of_day_entries grp by auto
  finally show ?thesis unfolding Y_def .
qed

lemma fold_days_lookup:
  "\<forall>day\<in>set days. utcMidnight day = day \<Longrightarrow>
   fold (\<lambda>day t. snd (processAggregation healthy (day + MS_PER_DAY) logs t)) days t (a, d) =
     (if d \<in> set days \<and> viewsOn logs a d \<noteq> 0 then Some (viewsOn logs a d) else t (a, d))"
proof (induction days arbitrary: t)
  case Nil
  then show ?case by simp
next
  case (Cons day days)
  from Cons.prems have day: "utcMidnight day = day" and rest: "\<forall>day\<in>set days. utcMidnight day = day"
    by simp_all
  have y: "utcMidnight (day + MS_PER_DAY) - MS_PER_DAY = day"
    using utcMidnight_tomorrow [of day] day by simp
  show ?case
    by (auto simp: Cons.IH [OF rest] process_healthy_lookup y)
qed

lemma daysOf_midnight: "\<forall>day\<in>set (daysOf logs). utcMidnight day = day"
  by (auto simp: daysOf_def utcMidnight_idem)

lemma viewsOn_day: "0 < viewsOn logs a d \<Longrightarrow> d \<in> set (daysOf logs)"
  by (auto simp: viewsOn_def daysOf_def filter_empty_conv)

lemma iso_values:
  "isoInstant 2024 1 1 0 0 0 = 1704067200000"
  "isoInstant 2024 1 1 23 59 59 = 1704153599000"
  "isoInstant 2024 1 2 0 0 0 = 1704153600000"
  "isoInstant 2024 1 2 0 0 1 = 1704153601000"
  "isoInstant 2024 1 2 12 0 0 = 1704196800000"
  "isoInstant 2024 1 3 0 0 0 = 1704240000000"
  by (simp_all add: isoInstant_def daysFromCivil_def MS_PER_DAY_def)

text \<open>
  C2. Aggregation is idempotent. With the database healthy and the read logs unchanged, a
  second full run leaves the table as the first run left it, and so does a second run of the
  daily job on the same UTC day. Every key that has read logs holds the freshly counted
  number of them, whatever the table held before: the count is written, never added. The
  read logs are plain (article ids that are plain keys, dates on the clock) and the job runs
  at times on the clock.
\<close>

theorem aggregation_idempotent:
  assumes "list_all plainLog logs" and "onClock now" and "onClock now'"
  shows
  "snd (runAggregationNow healthy logs (snd (runAggregationNow healthy logs table)))
     = snd (runAggregationNow healthy logs table) \<and>
   (utcMidnight now' = utcMidnight now \<longrightarrow>
      snd (processAggregation healthy now' logs (snd (processAggregation healthy now logs table)))
        = snd (processAggregation healthy now logs table)) \<and>
   (viewsOn logs a day \<noteq> 0 \<longrightarrow>
      snd (runAggregationNow healthy logs table) (a, day) = Some (viewsOn logs a day)) \<and>
   (viewsOn logs a (utcMidnight now - MS_PER_DAY) \<noteq> 0 \<longrightarrow>
      snd (processAggregation healthy now logs table) (a, utcMidnight now - MS_PER_DAY)
        = Some (viewsOn logs a (utcMidnight now - MS_PER_DAY)))"
proof -
  have full: "snd (runAggregationNow healthy logs (snd (runAggregationNow healthy logs table)))
     = snd (runAggregationNow healthy logs table)"
    by (rule ext) (auto simp: run_healthy_lookup)
  have incr: "snd (processAggregation healthy now' logs (snd (processAggregation healthy now logs table)))
        = snd (processAggregation healthy now logs table)" if "utcMidnight now' = utcMidnight now"
    using that by (intro ext) (auto simp: process_healthy_lookup)
  show ?thesis
    using full incr by (simp add: run_healthy_lookup process_healthy_lookup)
qed

theorem aggregation_idempotent_witness:
  "list_all plainLog [\<lparr>articleId = ''a1'', readerId = None, readAt = isoInstant 2024 1 1 23 59 59\<rparr>] \<and>
   onClock (isoInstant 2024 1 2 0 0 0) \<and> onClock (isoInstant 2024 1 2 12 0 0) \<and>
   utcMidnight (isoInstant 2024 1 2 12 0 0) = utcMidnight (isoInstant 2024 1 2 0 0 0) \<and>
   snd (processAggregation healthy (isoInstant 2024 1 2 12 0 0)
          [\<lparr>articleId = ''a1'', readerId = None, readAt = isoInstant 2024 1 1 23 59 59\<rparr>]
          (snd (processAggregation healthy (isoInstant 2024 1 2 0 0 0)
                  [\<lparr>articleId = ''a1'', readerId = None, readAt = isoInstant 2024 1 1 23 59 59\<rparr>]
                  [(''a1'', isoInstant 2024 1 1 0 0 0) \<mapsto> 7])))
     = snd (processAggregation healthy (isoInstant 2024 1 2 0 0 0)
              [\<lparr>articleId = ''a1'', readerId = None, readAt = isoInstant 2024 1 1 23 59 59\<rparr>]
              [(''a1'', isoInstant 2024 1 1 0 0 0) \<mapsto> 7]) \<and>
   viewsOn [\<lparr>articleId = ''a1'', readerId = None, readAt = isoInstant 2024 1 1 23 59 59\<rparr>]
           ''a1'' (isoInstant 2024 1 1 0 0 0) \<noteq> 0 \<and>
   snd (runAggregationNow healthy
          [\<lparr>articleId = ''a1'', readerId = None, readAt = isoInstant 2024 1 1 23 59 59\<rparr>]
          [(''a1'', isoInstant 2024 1 1 0 0 0) \<mapsto> 7]) (''a1'', isoInstant 2024 1 1 0 0 0)
     = Some 1"
  using aggregation_idempotent
          [where logs = "[\<lparr>articleId = ''a1'', readerId = None, readAt = isoInstant 2024 1 1 23 59 59\<rparr>]"
             and table = "[(''a1'', isoInstant 2024 1 1 0 0 0) \<mapsto> 7]"
             and now = "isoInstant 2024 1 2 0 0 0" and now' = "isoInstant 2024 1 2 12 0 0"
             and a = "''a1''" and day = "isoInstant 2024 1 1 0 0 0"]
  by (simp add: iso_values viewsOn_def utcMidnight_def MS_PER_DAY_def plainLog_def plainKey_def inheritedNames_def isDigit_def onClock_def)

text \<open>
  C5. Full and incremental aggregation agree. For every UTC day that has a read log, the
  full run and the daily job run on the following day leave the same count for every article
  on that day; and running the daily job once for each day of the history gives the very
  table that one full run gives. The read logs are plain, the job runs at times on the
  clock, and the day after each day of the history is on the clock.
\<close>

theorem full_and_incremental_agree:
  assumes "list_all plainLog logs" and "onClock now"
    and "list_all (\<lambda>day. onClock (day + MS_PER_DAY)) (daysOf logs)"
  shows
  "(day \<in> set (daysOf logs) \<and> utcMidnight now = day + MS_PER_DAY \<longrightarrow>
      snd (runAggregationNow healthy logs table) (a, day)
        = snd (processAggregation healthy now logs table) (a, day)) \<and>
   aggregateEachDay logs table = snd (runAggregationNow healthy logs table)"
proof -
  have "aggregateEachDay logs table = snd (runAggregationNow healthy logs table)"
    unfolding aggregateEachDay_def
    by (rule ext) (auto simp: fold_days_lookup [OF daysOf_midnight] run_healthy_lookup dest: viewsOn_day)
  then show ?thesis
    by (auto simp: run_healthy_lookup process_healthy_lookup)
qed

theorem full_and_incremental_agree_witness:
  "list_all plainLog
      [\<lparr>articleId = ''a1'', readerId = None, readAt = isoInstant 2024 1 1 23 59 59\<rparr>,
       \<lparr>articleId = ''a1'', readerId = None, readAt = isoInstant 2024 1 2 0 0 1\<rparr>] \<and>
   onClock (isoInstant 2024 1 2 12 0 0) \<and>
   isoInstant 2024 1 1 0 0 0 \<in> set (daysOf
      [\<lparr>articleId = ''a1'', readerId = None, readAt = isoInstant 2024 1 1 23 59 59\<rparr>,
       \<lparr>articleId = ''a1'', readerId = None, readAt = isoInstant 2024 1 2 0 0 1\<rparr>]) \<and>
   utcMidnight (isoInstant 2024 1 2 12 0 0) = isoInstant 2024 1 1 0 0 0 + MS_PER_DAY \<and>
   snd (runAggregationNow healthy
      [\<lparr>articleId = ''a1'', readerId = None, readAt = isoInstant 2024 1 1 23 59 59\<rparr>,
       \<lparr>articleId = ''a1'', readerId = None, readAt = isoInstant 2024 1 2 0 0 1\<rparr>] Map.empty)
     (''a1'', isoInstant 2024 1 1 0 0 0)
   = snd (processAggregation healthy (isoInstant 2024 1 2 12 0 0)
      [\<lparr>articleId = ''a1'', readerId = None, readAt = isoInstant 2024 1 1 23 59 59\<rparr>,
       \<lparr>articleId = ''a1'', readerId = None, readAt = isoInstant 2024 1 2 0 0 1\<rparr>] Map.empty)
     (''a1'', isoInstant 2024 1 1 0 0 0)"
  using full_and_incremental_agree
          [where logs = "[\<lparr>articleId = ''a1'', readerId = None, readAt = isoInstant 2024 1 1 23 59 59\<rparr>,
                          \<lparr>articleId = ''a1'', readerId = None, readAt = isoInstant 2024 1 2 0 0 1\<rparr>]"
             and table = Map.empty and now = "isoInstant 2024 1 2 12 0 0"
             and a = "''a1''" and day = "isoInstant 2024 1 1 0 0 0"]
  by (simp add: iso_values daysOf_def utcMidnight_def MS_PER_DAY_def plainLog_def plainKey_def inheritedNames_def isDigit_def onClock_def)

text \<open>
  C6. Buckets are UTC days. Two read logs of one article at 2024-01-01T23:59:59Z and
  2024-01-02T00:00:01Z give two rows, dated 2024-01-01 and 2024-01-02, with view count 1
  each. In general a read log counts for the day whose UTC midnight is the last one at or
  before its \<^verbatim>\<open>readAt\<close>. With no read log in scope, the full run and the daily job write
  nothing and report no error. The article id is a plain key, the read logs are plain and
  the times are on the clock.
\<close>

theorem utc_day_bucketing:
  assumes "plainKey a" and "list_all plainLog logs" and "onClock t" and "onClock now"
  shows
  "runAggregationNow healthy
     [\<lparr>articleId = a, readerId = r1, readAt = isoInstant 2024 1 1 23 59 59\<rparr>,
      \<lparr>articleId = a, readerId = r2, readAt = isoInstant 2024 1 2 0 0 1\<rparr>] Map.empty
     = (AggregationComplete 2 2,
        [(a, isoInstant 2024 1 1 0 0 0) \<mapsto> 1, (a, isoInstant 2024 1 2 0 0 0) \<mapsto> 1]) \<and>
   snd (runAggregationNow healthy logs table) (b, day)
     = (if viewsOn logs b day = 0 then table (b, day) else Some (viewsOn logs b day)) \<and>
   (utcMidnight t \<le> t \<and> t < utcMidnight t + 86400000 \<and> utcMidnight t mod 86400000 = 0) \<and>
   runAggregationNow (db\<lparr>readFails := False\<rparr>) [] table = (NoReadLogs, table) \<and>
   ((\<forall>l\<in>set logs. \<not> (utcMidnight now - MS_PER_DAY \<le> readAt l \<and> readAt l < utcMidnight now)) \<longrightarrow>
      processAggregation (db\<lparr>readFails := False\<rparr>) now logs table = (None, table))"
proof -
  have g: "groupLogs
     [\<lparr>articleId = a, readerId = r1, readAt = isoInstant 2024 1 1 23 59 59\<rparr>,
      \<lparr>articleId = a, readerId = r2, readAt = isoInstant 2024 1 2 0 0 1\<rparr>]
     = [(a, [(1704067200000, 1), (1704153600000, 1)])]"
    by (simp add: groupLogs_def addLog_def iso_values utcMidnight_def MS_PER_DAY_def)
  have two: "runAggregationNow healthy
     [\<lparr>articleId = a, readerId = r1, readAt = isoInstant 2024 1 1 23 59 59\<rparr>,
      \<lparr>articleId = a, readerId = r2, readAt = isoInstant 2024 1 2 0 0 1\<rparr>] Map.empty
     = (AggregationComplete 2 2,
        [(a, isoInstant 2024 1 1 0 0 0) \<mapsto> 1, (a, isoInstant 2024 1 2 0 0 0) \<mapsto> 1])"
    unfolding runAggregationNow_def g
    by (simp add: upsert_def healthy_def iso_values)
  have bounds: "utcMidnight t \<le> t \<and> t < utcMidnight t + 86400000 \<and> utcMidnight t mod 86400000 = 0"
    using utcMidnight_range [of t] by (simp add: utcMidnight_def MS_PER_DAY_def)
  have empty: "processAggregation (db\<lparr>readFails := False\<rparr>) now logs table = (None, table)"
    if "\<forall>l\<in>set logs. \<not> (utcMidnight now - MS_PER_DAY \<le> readAt l \<and> readAt l < utcMidnight now)"
  proof -
    from that have "filter (\<lambda>l. utcMidnight now - MS_PER_DAY \<le> readAt l \<and> readAt l < utcMidnight now) logs = []"
      by (simp add: filter_empty_conv)
    then show ?thesis
      unfolding processAggregation_def Let_def by (simp add: groupByArticle_def)
  qed
  have zero: "runAggregationNow (db\<lparr>readFails := False\<rparr>) [] table = (NoReadLogs, table)"
    by (simp add: runAggregationNow_def)
  show ?thesis
    using two bounds empty zero run_healthy_lookup [of logs table b day] by blast
qed

theorem utc_day_bucketing_witness:
  "plainKey ''a1'' \<and> onClock (isoInstant 2024 1 3 0 0 0) \<and>
   list_all plainLog [\<lparr>articleId = ''a1'', readerId = None, readAt = isoInstant 2024 1 1 23 59 59\<rparr>] \<and>
   processAggregation healthy (isoInstant 2024 1 3 0 0 0)
     [\<lparr>articleId = ''a1'', readerId = None, readAt = isoInstant 2024 1 1 23 59 59\<rparr>] Map.empty
     = (None, Map.empty) \<and>
   runAggregationNow healthy
     [\<lparr>articleId = ''a1'', readerId = None, readAt = isoInstant 2024 1 1 23 59 59\<rparr>,
      \<lparr>articleId = ''a1'', readerId = Some ''u1'', readAt = isoInstant 2024 1 2 0 0 1\<rparr>] Map.empty
     = (AggregationComplete 2 2,
        [(''a1'', 1704067200000) \<mapsto> 1, (''a1'', 1704153600000) \<mapsto> 1])"
  using utc_day_bucketing
          [where a = "''a1''" and ?r1.0 = None and ?r2.0 = "Some ''u1''" and db = healthy
             and now = "isoInstant 2024 1 3 0 0 0" and table = Map.empty
             and logs = "[\<lparr>articleId = ''a1'', readerId = None, readAt = isoInstant 2024 1 1 23 59 59\<rparr>]"
             and t = "isoInstant 2024 1 1 23 59 59"]
  by (simp add: iso_values utcMidnight_def MS_PER_DAY_def healthy_def plainLog_def plainKey_def inheritedNames_def isDigit_def onClock_def)

text \<open>
  C3, as stated, fails. An article has read logs on two days and the upsert of the first day
  is rejected: the run ends as failed and the second day, next in the iteration, is never
  upserted.
\<close>

theorem later_groups_not_upserted_after_failure:
  "entries (groupLogs
     [\<lparr>articleId = ''a1'', readerId = None, readAt = isoInstant 2024 1 1 23 59 59\<rparr>,
      \<lparr>articleId = ''a1'', readerId = None, readAt = isoInstant 2024 1 2 0 0 1\<rparr>])
     = [((''a1'', isoInstant 2024 1 1 0 0 0), 1), ((''a1'', isoInstant 2024 1 2 0 0 0), 1)] \<and>
   runAggregationNow (rejecting (''a1'', isoInstant 2024 1 1 0 0 0))
     [\<lparr>articleId = ''a1'', readerId = None, readAt = isoInstant 2024 1 1 23 59 59\<rparr>,
      \<lparr>articleId = ''a1'', readerId = None, readAt = isoInstant 2024 1 2 0 0 1\<rparr>] noAnalytics
     = (AggregationFailed, noAnalytics) \<and>
   noAnalytics (''a1'', isoInstant 2024 1 2 0 0 0) = None"
  by (simp add: runAggregationNow_def groupLogs_def addLog_def entries_def upsert_def iso_values
        utcMidnight_def MS_PER_DAY_def rejecting_def noAnalytics_def)

text \<open>
  C3, amended. The first rejected upsert ends the full run: the failure is logged by the
  single \<^verbatim>\<open>catch\<close> of the run and not rethrown, the upserts of the groups before it in the
  iteration stay applied, and the failing group and every group after it are left as they
  were by that run. The read logs are plain, so that the iteration follows the order in
  which the groups first appear in the read logs.
\<close>

theorem rejected_upsert_ends_run:
  assumes plain: "list_all plainLog logs"
    and reads: "\<not> readFails db" "logs \<noteq> []"
    and order: "entries (groupLogs logs) = before @ (k, viewCount) # after"
    and accepted: "\<forall>e\<in>set before. \<not> upsertFails db (fst e)"
    and rejected: "upsertFails db k"
  shows "runAggregationNow db logs table = (AggregationFailed, applied before table) \<and>
         (\<forall>e\<in>set ((k, viewCount) # after). snd (runAggregationNow db logs table) (fst e) = table (fst e))"
proof -
  have run: "runAggregationNow db logs table = (AggregationFailed, applied before table)"
    using reads
    by (simp add: runAggregationNow_def upsertGrouped_flat order upsertAll_stop [OF accepted rejected])
  have "distinct (map fst (before @ (k, viewCount) # after))"
    using distinct_entries [OF uniqueKeys_groupLogs, of logs] by (simp add: order)
  then have "\<forall>e\<in>set ((k, viewCount) # after). fst e \<notin> fst ` set before"
    by auto
  then show ?thesis
    by (simp add: run applied_untouched)
qed

theorem rejected_upsert_ends_run_witness:
  "list_all plainLog
     [\<lparr>articleId = ''a1'', readerId = None, readAt = isoInstant 2024 1 1 23 59 59\<rparr>,
      \<lparr>articleId = ''a1'', readerId = None, readAt = isoInstant 2024 1 2 0 0 1\<rparr>,
      \<lparr>articleId = ''a2'', readerId = None, readAt = isoInstant 2024 1 2 0 0 1\<rparr>] \<and>
   runAggregationNow
     (rejecting (''a1'', isoInstant 2024 1 2 0 0 0))
     [\<lparr>articleId = ''a1'', readerId = None, readAt = isoInstant 2024 1 1 23 59 59\<rparr>,
      \<lparr>articleId = ''a1'', readerId = None, readAt = isoInstant 2024 1 2 0 0 1\<rparr>,
      \<lparr>articleId = ''a2'', readerId = None, readAt = isoInstant 2024 1 2 0 0 1\<rparr>] Map.empty
     = (AggregationFailed, [(''a1'', isoInstant 2024 1 1 0 0 0) \<mapsto> 1])"
proof -
  let ?db = "rejecting (''a1'', isoInstant 2024 1 2 0 0 0)"
  let ?logs = "[\<lparr>articleId = ''a1'', readerId = None, readAt = isoInstant 2024 1 1 23 59 59\<rparr>,
      \<lparr>articleId = ''a1'', readerId = None, readAt = isoInstant 2024 1 2 0 0 1\<rparr>,
      \<lparr>articleId = ''a2'', readerId = None, readAt = isoInstant 2024 1 2 0 0 1\<rparr>]"
  have e: "entries (groupLogs ?logs) =
      [((''a1'', isoInstant 2024 1 1 0 0 0), 1)] @ ((''a1'', isoInstant 2024 1 2 0 0 0), 1)
        # [((''a2'', isoInstant 2024 1 2 0 0 0), 1)]"
    by (simp add: groupLogs_def addLog_def entries_def iso_values utcMidnight_def MS_PER_DAY_def)
  have p: "list_all plainLog ?logs"
    by (simp add: iso_values plainLog_def plainKey_def inheritedNames_def isDigit_def onClock_def)
  have r: "\<not> readFails ?db" by (simp add: rejecting_def)
  have n: "?logs \<noteq> []" by simp
  have b: "\<forall>e\<in>set [((''a1'', isoInstant 2024 1 1 0 0 0), 1::nat)]. \<not> upsertFails ?db (fst e)"
    by (simp add: iso_values rejecting_def)
  have f: "upsertFails ?db (''a1'', isoInstant 2024 1 2 0 0 0)" by (simp add: rejecting_def)
  show ?thesis
    using p rejected_upsert_ends_run [OF p r n e b f, of Map.empty]
    by (simp add: applied_def)
qed

section \<open>Properties of startup and scheduling\<close>

lemma step_registrations:
  "worker (step s e) = worker s \<and> dailyJob (step s e) = dailyJob s \<and>
   intervalTimer (step s e) = intervalTimer s"
  by (cases e) simp_all

lemma exec_registrations:
  "worker (exec evs s) = worker s \<and> dailyJob (exec evs s) = dailyJob s \<and>
   intervalTimer (exec evs s) = intervalTimer s"
  unfolding exec_def
  by (induction evs arbitrary: s) (simp_all add: step_registrations)

lemma checkRedis_iff: "checkRedis timeoutMs ev \<longleftrightarrow> (\<exists>t<timeoutMs. ev = Connects t)"
  by (cases ev) (simp_all add: checkRedis_def)

lemma step_idle: "e \<noteq> TimerTick \<or> running s = 0 \<Longrightarrow> running s \<le> 1 \<Longrightarrow> running (step s e) \<le> 1"
  by (cases e) auto

lemma exec_idle:
  "ticksWhenIdle s evs \<Longrightarrow> running s \<le> 1 \<Longrightarrow> running (exec evs s) \<le> 1"
  unfolding exec_def
proof (induction evs arbitrary: s)
  case Nil
  then show ?case by simp
next
  case (Cons e evs)
  from Cons.prems have "running (step s e) \<le> 1" and "ticksWhenIdle (step s e) evs"
    using step_idle [of e s] by auto
  then show ?case using Cons.IH by simp
qed

text \<open>
  C8. The mode is fixed by the one probe at startup, bounded by 2000 ms: the probe succeeds
  exactly when the socket connects within 2000 ms, success registers the queue worker
  (QueueBacked), failure or timeout registers the interval timer (InProcessFallback), and no
  later event, Redis becoming reachable included, changes what is registered.
\<close>

theorem mode_chosen_once_at_startup:
  assumes "startServer probe scheduleFails = Some s"
  shows "(checkRedis 2000 probe \<longleftrightarrow> (\<exists>t<2000. probe = Connects t)) \<and>
         modeOf s = (if checkRedis 2000 probe then QueueBacked else InProcessFallback) \<and>
         (worker s \<longleftrightarrow> checkRedis 2000 probe) \<and>
         (intervalTimer s \<longleftrightarrow> \<not> checkRedis 2000 probe) \<and>
         modeOf (exec evs s) = modeOf s \<and>
         worker (exec evs s) = worker s \<and>
         intervalTimer (exec evs s) = intervalTimer s"
proof -
  from assms have "worker s = checkRedis 2000 probe" "intervalTimer s = (\<not> checkRedis 2000 probe)"
    by (auto simp: startServer_def Let_def split: if_splits)
  then show ?thesis
    by (simp add: modeOf_def exec_registrations checkRedis_iff)
qed

theorem mode_chosen_once_at_startup_witness:
  "startServer (Connects 1999) False =
     Some \<lparr>worker = True, dailyJob = True, intervalTimer = False, running = 0, runsStarted = 0,
            jobsHandled = 0\<rparr> \<and>
   modeOf (exec [JobFired, RedisDown, RedisUp, TimerTick]
     \<lparr>worker = True, dailyJob = True, intervalTimer = False, running = 0, runsStarted = 0,
      jobsHandled = 0\<rparr>) = QueueBacked \<and>
   startServer (Connects 2500) False =
     Some \<lparr>worker = False, dailyJob = False, intervalTimer = True, running = 0, runsStarted = 1,
            jobsHandled = 0\<rparr> \<and>
   modeOf (exec [TimerTick, RedisUp, RunSettled, JobFired]
     \<lparr>worker = False, dailyJob = False, intervalTimer = True, running = 0, runsStarted = 1,
      jobsHandled = 0\<rparr>) = InProcessFallback"
proof -
  have q: "startServer (Connects 1999) False =
     Some \<lparr>worker = True, dailyJob = True, intervalTimer = False, running = 0, runsStarted = 0,
            jobsHandled = 0\<rparr>"
    by (simp add: startServer_def checkRedis_def)
  have f: "startServer (Connects 2500) False =
     Some \<lparr>worker = False, dailyJob = False, intervalTimer = True, running = 0, runsStarted = 1,
            jobsHandled = 0\<rparr>"
    by (simp add: startServer_def checkRedis_def)
  show ?thesis
    using mode_chosen_once_at_startup [OF q, of "[JobFired, RedisDown, RedisUp, TimerTick]"]
          mode_chosen_once_at_startup [OF f, of "[TimerTick, RedisUp, RunSettled, JobFired]"] q f
    by (simp add: checkRedis_def)
qed

text \<open>
  C1, as stated, fails: in the fallback mode a timer tick that fires while a run is still
  executing starts a second run. After two ticks with no run settled in between, two runs
  are in flight.
\<close>

theorem second_tick_starts_second_run:
  "startServer Silent False =
     Some \<lparr>worker = False, dailyJob = False, intervalTimer = True, running = 0, runsStarted = 1,
            jobsHandled = 0\<rparr> \<and>
   running (exec [TimerTick, TimerTick]
     \<lparr>worker = False, dailyJob = False, intervalTimer = True, running = 0, runsStarted = 1,
      jobsHandled = 0\<rparr>) = 2"
  by (simp add: startServer_def checkRedis_def exec_def)

text \<open>
  C1, amended. The interval callback has no overlap guard: every timer tick starts a run, so
  a tick that fires while runs are executing adds one more. At most one run is in flight as
  long as every tick fires when no run is executing, that is, as long as each run settles
  before the next tick.
\<close>

theorem tick_always_starts_a_run:
  "(intervalTimer s \<longrightarrow> running (step s TimerTick) = running s + 1) \<and>
   (ticksWhenIdle s evs \<and> running s \<le> 1 \<longrightarrow> running (exec evs s) \<le> 1)"
  using exec_idle [of s evs] by simp

theorem tick_always_starts_a_run_witness:
  "ticksWhenIdle
     \<lparr>worker = False, dailyJob = False, intervalTimer = True, running = 0, runsStarted = 1,
      jobsHandled = 0\<rparr> [TimerTick, RunSettled, TimerTick] \<and>
   running (exec [TimerTick, RunSettled, TimerTick]
     \<lparr>worker = False, dailyJob = False, intervalTimer = True, running = 0, runsStarted = 1,
      jobsHandled = 0\<rparr>) \<le> 1 \<and>
   running (step \<lparr>worker = False, dailyJob = False, intervalTimer = True, running = 1, runsStarted = 2,
      jobsHandled = 0\<rparr> TimerTick) = 2"
proof -
  have i: "ticksWhenIdle
     \<lparr>worker = False, dailyJob = False, intervalTimer = True, running = 0, runsStarted = 1,
      jobsHandled = 0\<rparr> [TimerTick, RunSettled, TimerTick]"
    by simp
  show ?thesis
    using i tick_always_starts_a_run
            [of "\<lparr>worker = False, dailyJob = False, intervalTimer = True, running = 0,
                  runsStarted = 1, jobsHandled = 0\<rparr>" "[TimerTick, RunSettled, TimerTick]"]
          tick_always_starts_a_run
            [of "\<lparr>worker = False, dailyJob = False, intervalTimer = True, running = 1,
                  runsStarted = 2, jobsHandled = 0\<rparr>" "[]"]
    by simp
qed

end
